theory Spec2Isabelle
  imports Complex_Main "HOL-Library.Multiset" "HOL-Library.AList"
begin

section \<open>JavaScript values used by the viewer\<close>

text \<open>
  Strings are lists of code units. A HOL \<^typ>\<open>char\<close> has eight bits, so the model
  covers the strings whose code units lie in U+0000..U+00FF; on these the functions below
  are the ones of the language.

  \<^verbatim>\<open>String.prototype.toLowerCase\<close> maps A..Z and the capital letters
  U+00C0..U+00DE (without the multiplication sign U+00D7) to the letter 32 places
  further, which is the same code unit with bit 5 set, and leaves every other code unit
  of the range alone.
\<close>

definition isUpperCase :: "char \<Rightarrow> bool" where
  "isUpperCase c =
     (let n = (of_char c :: nat) in
      (65 \<le> n \<and> n \<le> 90) \<or> (192 \<le> n \<and> n \<le> 222 \<and> n \<noteq> 215))"

definition toLowerChar :: "char \<Rightarrow> char" where
  "toLowerChar c =
     (if isUpperCase c
      then Char (digit0 c) (digit1 c) (digit2 c) (digit3 c) (digit4 c) True (digit6 c) (digit7 c)
      else c)"

definition toLowerCase :: "string \<Rightarrow> string" where
  "toLowerCase s = map toLowerChar s"

text \<open>
  \<^verbatim>\<open>s.includes(sub)\<close>: does \<open>sub\<close> occur in \<open>s\<close> as a run of
  consecutive code units. The empty string occurs in every string.
\<close>

fun startsWith :: "string \<Rightarrow> string \<Rightarrow> bool" where
  "startsWith s [] = True"
| "startsWith [] (x # xs) = False"
| "startsWith (c # cs) (x # xs) = (c = x \<and> startsWith cs xs)"

fun includes_str :: "string \<Rightarrow> string \<Rightarrow> bool" where
  "includes_str [] sub = (sub = [])"
| "includes_str (c # cs) sub = (startsWith (c # cs) sub \<or> includes_str cs sub)"

text \<open>
  A \<^verbatim>\<open>Date\<close> is a time value in milliseconds since the epoch, or the invalid date,
  whose time value is NaN. The relational operators compare the time values, and every
  comparison with NaN is false.
\<close>

type_synonym date = "int option"

definition dateGe :: "date \<Rightarrow> date \<Rightarrow> bool" where
  "dateGe a b = (case (a, b) of (Some x, Some y) \<Rightarrow> y \<le> x | _ \<Rightarrow> False)"

definition dateLe :: "date \<Rightarrow> date \<Rightarrow> bool" where
  "dateLe a b = (case (a, b) of (Some x, Some y) \<Rightarrow> x \<le> y | _ \<Rightarrow> False)"

definition dateLt :: "date \<Rightarrow> date \<Rightarrow> bool" where
  "dateLt a b = (case (a, b) of (Some x, Some y) \<Rightarrow> x < y | _ \<Rightarrow> False)"

text \<open>
  A number is a finite value, an infinity or NaN. The finite values are real numbers: the
  divisions below have integers as operands, their floating-point results are rounded
  monotonically, and 0, 1 and 100 are floating-point numbers, so the bounds proved of the
  real values hold of the rounded ones. A division by zero is not a finite value: it is
  NaN for \<^verbatim>\<open>0 / 0\<close> and an infinity with the sign of the dividend
  otherwise (the zero divisors of the code are positive zeros). A product with NaN is NaN,
  and the product of an infinity and zero is NaN.
\<close>

datatype jsNumber = Finite real | PosInfinity | NegInfinity | NotANumber

definition jsDivide :: "real \<Rightarrow> real \<Rightarrow> jsNumber" where
  "jsDivide a b =
     (if b = 0 then (if a = 0 then NotANumber else if a > 0 then PosInfinity else NegInfinity)
      else Finite (a / b))"

definition jsTimes :: "jsNumber \<Rightarrow> real \<Rightarrow> jsNumber" where
  "jsTimes x k =
     (case x of
        Finite a \<Rightarrow> Finite (a * k)
      | PosInfinity \<Rightarrow>
          (if k > 0 then PosInfinity else if k < 0 then NegInfinity else NotANumber)
      | NegInfinity \<Rightarrow>
          (if k > 0 then NegInfinity else if k < 0 then PosInfinity else NotANumber)
      | NotANumber \<Rightarrow> NotANumber)"

section \<open>The screenshot page: \<^verbatim>\<open>app/page.tsx\<close>\<close>

record screenshot_metadata =
  filename :: string
  created_time :: string
  modified_time :: string
  dimensions :: string
  device_type :: string
  md_path :: string
  original_path :: string

record screenshot =
  screenshot_id :: string
  content :: string
  metadata :: screenshot_metadata

text \<open>The state of the \<^verbatim>\<open>Home\<close> component that filtering and the word cloud use.\<close>

record home =
  screenshots :: "screenshot list"
  searchQuery :: string
  startDate :: string
  endDate :: string
  wordCloudFilter :: "string list"
  pendingWordCloudFilter :: "string list"
  selectedDateRange :: "(date \<times> date) option"

text \<open>
  \<^verbatim>\<open>filterScreenshots\<close> computes the list handed to
  \<^verbatim>\<open>setFilteredScreenshots\<close>. The two date parsers it calls,
  \<^verbatim>\<open>new Date(string)\<close> and \<^verbatim>\<open>parseISO\<close> of date-fns, are parameters:
  each maps a string to a date, the invalid date included. A string is truthy when it is
  not empty.
\<close>

definition searchStage :: "string \<Rightarrow> screenshot list \<Rightarrow> screenshot list" where
  "searchStage q filtered =
     (if q \<noteq> [] then
        filter (\<lambda>s. includes_str (toLowerCase (content s)) (toLowerCase q) \<or>
                    includes_str (toLowerCase (filename (metadata s))) (toLowerCase q)) filtered
      else filtered)"

definition dateStage ::
  "(string \<Rightarrow> date) \<Rightarrow> (string \<Rightarrow> date) \<Rightarrow> home \<Rightarrow> screenshot list \<Rightarrow> screenshot list" where
  "dateStage newDate parseISO st filtered =
     (case selectedDateRange st of
        Some (rangeStart, rangeEnd) \<Rightarrow>
          filter (\<lambda>s. let created = newDate (created_time (metadata s))
                      in dateGe created rangeStart \<and> dateLe created rangeEnd) filtered
      | None \<Rightarrow>
          if startDate st \<noteq> [] \<and> endDate st \<noteq> [] then
            filter (\<lambda>s. let created = parseISO (created_time (metadata s));
                            start = parseISO (startDate st);
                            end' = parseISO (endDate st)
                        in dateGe created start \<and> dateLe created end') filtered
          else filtered)"

definition wordStage :: "string list \<Rightarrow> screenshot list \<Rightarrow> screenshot list" where
  "wordStage ws filtered =
     (if length ws > 0 then
        filter (\<lambda>s. let contentLower = toLowerCase (content s)
                    in list_all (\<lambda>word. includes_str contentLower (toLowerCase word)) ws) filtered
      else filtered)"

definition filterScreenshots ::
  "(string \<Rightarrow> date) \<Rightarrow> (string \<Rightarrow> date) \<Rightarrow> home \<Rightarrow> screenshot list" where
  "filterScreenshots newDate parseISO st =
     wordStage (wordCloudFilter st)
       (dateStage newDate parseISO st
          (searchStage (searchQuery st) (screenshots st)))"

text \<open>
  \<^verbatim>\<open>handleWordClick\<close>: a shift-click removes the word from the pending filter
  when it is there and appends it otherwise; a plain click replaces the pending filter.
\<close>

definition handleWordClick :: "string \<Rightarrow> bool \<Rightarrow> home \<Rightarrow> home" where
  "handleWordClick word isShiftClick st =
     (if isShiftClick then
        st\<lparr>pendingWordCloudFilter :=
             (let prev = pendingWordCloudFilter st
              in if word \<in> set prev then filter (\<lambda>w. w \<noteq> word) prev else prev @ [word])\<rparr>
      else st\<lparr>pendingWordCloudFilter := [word]\<rparr>)"

section \<open>Arrays and objects\<close>

text \<open>
  \<^verbatim>\<open>Array.prototype.sort(comparefn)\<close>. The comparator returns a number; the
  result NaN is \<open>None\<close>, and the language reads it as \<open>+0\<close>. The sort is stable. It
  is modelled as an insertion sort: each element is put in front of the first element of
  the sorted rest that it does not have to follow. For a consistent comparator every
  stable sort gives this result, and the theorems about the order of a sorted list are
  stated for such comparators. For an inconsistent comparator (one that answers NaN for
  some pairs only) the language leaves the order to the implementation, and an engine
  may give another order than this insertion sort. The one evaluation below in that
  regime is the list of three timeline items with an invalid timestamp in the middle:
  there every answer of the comparator between neighbours is NaN, read as \<open>+0\<close>, so
  an engine that first looks for a run that does not descend (as V8 does) finds the whole
  list to be one and leaves it as it is, which is also what the insertion sort gives.
\<close>

definition sortCompare :: "('a \<Rightarrow> 'a \<Rightarrow> int option) \<Rightarrow> 'a \<Rightarrow> 'a \<Rightarrow> int" where
  "sortCompare comparefn x y = (case comparefn x y of None \<Rightarrow> 0 | Some v \<Rightarrow> v)"

fun insertBy :: "('a \<Rightarrow> 'a \<Rightarrow> int option) \<Rightarrow> 'a \<Rightarrow> 'a list \<Rightarrow> 'a list" where
  "insertBy comparefn x [] = [x]"
| "insertBy comparefn x (y # ys) =
     (if sortCompare comparefn x y \<le> 0 then x # y # ys else y # insertBy comparefn x ys)"

definition sortBy :: "('a \<Rightarrow> 'a \<Rightarrow> int option) \<Rightarrow> 'a list \<Rightarrow> 'a list" where
  "sortBy comparefn xs = foldr (insertBy comparefn) xs []"

text \<open>
  An object used as a table from strings is an association list in the order in which the
  keys were created. \<^verbatim>\<open>Object.entries\<close> lists the keys that are array indices
  first (canonical decimal numerals below \<open>2^32 - 1\<close>), in ascending numeric order, and
  then the other keys in creation order.
\<close>

definition isDigit :: "char \<Rightarrow> bool" where
  "isDigit c = (let n = (of_char c :: nat) in 48 \<le> n \<and> n \<le> 57)"

definition digitsValue :: "string \<Rightarrow> int" where
  "digitsValue s = foldl (\<lambda>n c. 10 * n + (of_char c - 48)) 0 s"

definition isArrayIndex :: "string \<Rightarrow> bool" where
  "isArrayIndex k =
     (k \<noteq> [] \<and> list_all isDigit k \<and> (k = ''0'' \<or> hd k \<noteq> CHR ''0'') \<and>
      digitsValue k < 4294967295)"

definition entries :: "(string \<times> 'v) list \<Rightarrow> (string \<times> 'v) list" where
  "entries obj =
     sort_key (\<lambda>e. digitsValue (fst e)) (filter (\<lambda>e. isArrayIndex (fst e)) obj) @
     filter (\<lambda>e. \<not> isArrayIndex (fst e)) obj"

section \<open>The word cloud: \<^verbatim>\<open>components/WordCloud.tsx\<close>\<close>

text \<open>
  The classes of the regular expressions: \<^verbatim>\<open>\w\<close> is \<open>[A-Za-z0-9_]\<close>;
  \<^verbatim>\<open>\s\<close> is, in the range of the model, tab, line feed, vertical tab, form feed,
  carriage return, space and the no-break space U+00A0.
\<close>

definition isWordChar :: "char \<Rightarrow> bool" where
  "isWordChar c =
     (let n = (of_char c :: nat) in
      (48 \<le> n \<and> n \<le> 57) \<or> (65 \<le> n \<and> n \<le> 90) \<or> n = 95 \<or> (97 \<le> n \<and> n \<le> 122))"

definition isSpaceChar :: "char \<Rightarrow> bool" where
  "isSpaceChar c = (let n = (of_char c :: nat) in (9 \<le> n \<and> n \<le> 13) \<or> n = 32 \<or> n = 160)"

text \<open>\<^verbatim>\<open>text.toLowerCase().replace(/[^\w\s]/g, '')\<close>\<close>

definition cleanText :: "string \<Rightarrow> string" where
  "cleanText txt = filter (\<lambda>c. isWordChar c \<or> isSpaceChar c) (toLowerCase txt)"

text \<open>
  \<^verbatim>\<open>split(/\s+/)\<close>: every maximal run of white space separates two pieces; a
  string that starts or ends with white space has an empty first or last piece, and the
  empty string has one piece, which is empty. The first argument is the piece read so far.
\<close>

fun splitSpaces :: "string \<Rightarrow> string \<Rightarrow> string list" where
  "splitSpaces cur [] = [cur]"
| "splitSpaces cur (c # cs) =
     (if isSpaceChar c then
        (if cs \<noteq> [] \<and> isSpaceChar (hd cs) then splitSpaces cur cs
         else cur # splitSpaces [] cs)
      else splitSpaces (cur @ [c]) cs)"

definition wordArray :: "string \<Rightarrow> string list" where
  "wordArray txt = splitSpaces [] (cleanText txt)"

definition stopWords :: "string list" where
  "stopWords =
     [''the'', ''is'', ''at'', ''which'', ''on'', ''a'', ''an'', ''and'', ''or'', ''but'',
      ''in'', ''with'', ''to'', ''for'', ''of'', ''as'', ''by'', ''that'', ''this'',
      ''it'', ''from'', ''be'', ''are'', ''been'', ''was'', ''were'', ''being'']"

text \<open>
  \<^verbatim>\<open>wordCount\<close> is a plain object, so its lookups fall through to
  \<^verbatim>\<open>Object.prototype\<close>. Two of the inherited names are made of lower-case word
  characters and can be a word of the text:
  \<^item> \<^verbatim>\<open>constructor\<close> is the function \<^verbatim>\<open>Object\<close>, which is truthy; adding 1
    to it gives a string, its source text followed by \<^verbatim>\<open>1\<close>, which the assignment
    stores, and every further occurrence appends another \<^verbatim>\<open>1\<close>;
  \<^item> \<^verbatim>\<open>__proto__\<close> is an accessor whose setter ignores a value that is not an
    object, so the assignment stores nothing.
  A value of the table is therefore a number or, under the key \<^verbatim>\<open>constructor\<close>,
  such a string, given here by its number of appended digits.
\<close>

datatype countValue = Number nat | ObjectSourceOnes nat

definition countWord :: "(string \<times> countValue) list \<Rightarrow> string \<Rightarrow> (string \<times> countValue) list" where
  "countWord wordCount word =
     (if length word > 3 \<and> word \<notin> set stopWords then
        (if word = ''__proto__'' then wordCount
         else AList.update word
                (case map_of wordCount word of
                   Some (Number n) \<Rightarrow> Number (n + 1)
                 | Some (ObjectSourceOnes k) \<Rightarrow> ObjectSourceOnes (k + 1)
                 | None \<Rightarrow> if word = ''constructor'' then ObjectSourceOnes 1 else Number 1)
                wordCount)
      else wordCount)"

definition countWords :: "string list \<Rightarrow> (string \<times> countValue) list" where
  "countWords ws = foldl countWord [] ws"

text \<open>
  The comparator \<^verbatim>\<open>(a, b) => b.value - a.value\<close> on the pairs
  \<^verbatim>\<open>{ text, value }\<close>: the difference of two numbers, and NaN when a value is
  a string that is not a numeral.
\<close>

definition byValueDesc :: "string \<times> countValue \<Rightarrow> string \<times> countValue \<Rightarrow> int option" where
  "byValueDesc a b =
     (case (snd b, snd a) of
        (Number y, Number x) \<Rightarrow> Some (int y - int x)
      | _ \<Rightarrow> None)"

definition ranked :: "string \<Rightarrow> (string \<times> countValue) list" where
  "ranked txt = sortBy byValueDesc (entries (countWords (wordArray txt)))"

definition words :: "string \<Rightarrow> (string \<times> countValue) list" where
  "words txt = take 50 (ranked txt)"

section \<open>The unified timeline: \<^verbatim>\<open>components/UnifiedTimeline.tsx\<close>\<close>

record timelineItem =
  item_id :: string
  source_type :: string
  title :: string
  item_content :: string
  timestamp :: string
  extracted_concepts :: "string list"
  concept_categories :: "string list"
  importance_score :: real
  summary :: "string option"
  key_topics :: "string list option"

text \<open>
  \<^verbatim>\<open>new Date(b.timestamp).getTime() - new Date(a.timestamp).getTime()\<close>: the
  time value of an invalid date is NaN, and so is the difference then.
\<close>

definition byTimestampDesc :: "(string \<Rightarrow> date) \<Rightarrow> timelineItem \<Rightarrow> timelineItem \<Rightarrow> int option" where
  "byTimestampDesc newDate a b =
     (case (newDate (timestamp b), newDate (timestamp a)) of
        (Some y, Some x) \<Rightarrow> Some (y - x)
      | _ \<Rightarrow> None)"

text \<open>
  \<^verbatim>\<open>filteredItems\<close>. The two selections are a string or \<^verbatim>\<open>null\<close>; the empty
  string is falsy like \<^verbatim>\<open>null\<close>.
\<close>

definition filteredItems ::
  "(string \<Rightarrow> date) \<Rightarrow> string option \<Rightarrow> string option \<Rightarrow> timelineItem list \<Rightarrow> timelineItem list" where
  "filteredItems newDate selectedSource selectedCategory timelineItems =
     (let items = timelineItems;
          items = (case selectedSource of
                     Some src \<Rightarrow>
                       if src \<noteq> [] then filter (\<lambda>item. source_type item = src) items else items
                   | None \<Rightarrow> items);
          items = (case selectedCategory of
                     Some cat \<Rightarrow>
                       if cat \<noteq> [] then filter (\<lambda>item. cat \<in> set (concept_categories item)) items
                       else items
                   | None \<Rightarrow> items)
      in sortBy (byTimestampDesc newDate) items)"

section \<open>The histogram: \<^verbatim>\<open>components/TimeHistogram.tsx\<close>\<close>

record histogramItem =
  hist_id :: string
  created_at :: string

datatype error = RangeError

text \<open>
  The daily counts. \<^verbatim>\<open>format(startOfDay(date), 'yyyy-MM-dd')\<close> names the local
  calendar day of a date; the model takes the day as a number, given by the parameter
  \<open>dayOf\<close> from the time value, so two dates have the same key exactly when they lie on
  the same day. \<^verbatim>\<open>format\<close> throws a \<^verbatim>\<open>RangeError\<close> on the invalid date.
  \<^verbatim>\<open>eachDayOfInterval\<close> from the first day to the last one lists the days between
  them, both included.
\<close>

definition countDay ::
  "(string \<Rightarrow> date) \<Rightarrow> (int \<Rightarrow> int) \<Rightarrow> (int \<times> nat) list \<times> date \<times> date \<Rightarrow> histogramItem
     \<Rightarrow> error + (int \<times> nat) list \<times> date \<times> date" where
  "countDay newDate dayOf acc shot =
     (case acc of (counts, minDate, maxDate) \<Rightarrow>
        let date = newDate (created_at shot) in
        (case date of
           None \<Rightarrow> Inl RangeError
         | Some t \<Rightarrow>
             let dayKey = dayOf t;
                 counts = AList.update dayKey
                            ((case map_of counts dayKey of Some c \<Rightarrow> c | None \<Rightarrow> 0) + 1) counts;
                 minDate = (if dateLt date minDate then date else minDate);
                 maxDate = (if dateLt maxDate date then date else maxDate)
             in Inr (counts, minDate, maxDate)))"

fun countDays ::
  "(string \<Rightarrow> date) \<Rightarrow> (int \<Rightarrow> int) \<Rightarrow> (int \<times> nat) list \<times> date \<times> date \<Rightarrow> histogramItem list
     \<Rightarrow> error + (int \<times> nat) list \<times> date \<times> date" where
  "countDays newDate dayOf acc [] = Inr acc"
| "countDays newDate dayOf acc (s # ss) =
     (case countDay newDate dayOf acc s of
        Inl e \<Rightarrow> Inl e
      | Inr acc' \<Rightarrow> countDays newDate dayOf acc' ss)"

definition fillDay :: "(int \<times> nat) list \<Rightarrow> int \<Rightarrow> (int \<times> nat) list" where
  "fillDay counts dayKey =
     (if (case map_of counts dayKey of Some c \<Rightarrow> c = 0 | None \<Rightarrow> True)
      then AList.update dayKey 0 counts else counts)"

definition eachDayOfInterval :: "int \<Rightarrow> int \<Rightarrow> int list" where
  "eachDayOfInterval firstDay lastDay = [firstDay..lastDay]"

text \<open>
  \<^verbatim>\<open>Math.max(...Object.values(counts))\<close> passes one argument for every entry
  of the table. An engine accepts a bounded number of arguments in one call and throws a
  \<^verbatim>\<open>RangeError\<close> beyond it; the bound is the parameter \<open>maxArguments\<close>. The
  table has an entry when the maximum is taken, since the list of screenshots is not empty
  there.
\<close>

definition maxValue :: "nat \<Rightarrow> (int \<times> nat) list \<Rightarrow> error + nat" where
  "maxValue maxArguments counts =
     (let vals = map snd counts
      in if length vals > maxArguments then Inl RangeError
         else (case vals of [] \<Rightarrow> Inr 0 | v # vs \<Rightarrow> Inr (fold max vs v)))"

record histogram =
  dailyCounts :: "(int \<times> nat) list"
  dateRange :: "(date \<times> date) option"
  maxCount :: nat

definition timeHistogram ::
  "(string \<Rightarrow> date) \<Rightarrow> (int \<Rightarrow> int) \<Rightarrow> nat \<Rightarrow> histogramItem list \<Rightarrow> error + histogram" where
  "timeHistogram newDate dayOf maxArguments shots =
     (if shots = [] then Inr \<lparr>dailyCounts = [], dateRange = None, maxCount = 0\<rparr>
      else
        let first = newDate (created_at (hd shots)) in
        (case countDays newDate dayOf ([], first, first) shots of
           Inl e \<Rightarrow> Inl e
         | Inr (counts, minDate, maxDate) \<Rightarrow>
             (case (minDate, maxDate) of
                (Some lo, Some hi) \<Rightarrow>
                  let days = eachDayOfInterval (dayOf lo) (dayOf hi);
                      counts = foldl fillDay counts days
                  in (case maxValue maxArguments counts of
                        Inl e \<Rightarrow> Inl e
                      | Inr m \<Rightarrow>
                          Inr \<lparr>dailyCounts = counts,
                               dateRange = Some (minDate, maxDate),
                               maxCount = m\<rparr>)
              | _ \<Rightarrow> Inl RangeError)))"

text \<open>
  The height of a day's bar, in percent:
  \<^verbatim>\<open>maxCount > 0 ? (count / maxCount) * 100 : 0\<close>.
\<close>

definition barHeight :: "(int \<times> nat) list \<Rightarrow> nat \<Rightarrow> int \<Rightarrow> jsNumber" where
  "barHeight counts maxC dayKey =
     (let count = (case map_of counts dayKey of Some c \<Rightarrow> c | None \<Rightarrow> 0)
      in if maxC > 0 then jsTimes (jsDivide (real count) (real maxC)) 100 else Finite 0)"

section \<open>The processing page\<close>

record processingStatus =
  is_running :: bool
  job_id :: "string option"
  progress :: nat
  total :: nat
  processed :: nat
  failed :: nat
  current_file :: "string option"
  status :: string

text \<open>
  \<^verbatim>\<open>calculateProcessingRate\<close>. \<open>startTime\<close> is \<^verbatim>\<open>null\<close> or a date, and
  \<open>now\<close> is the time value of \<^verbatim>\<open>new Date()\<close>. The time value of an invalid
  start date is NaN, and so is the rate then.
\<close>

definition calculateProcessingRate :: "date option \<Rightarrow> int \<Rightarrow> processingStatus \<Rightarrow> jsNumber" where
  "calculateProcessingRate startTime now st =
     (case startTime of
        None \<Rightarrow> Finite 0
      | Some d \<Rightarrow>
          if processed st = 0 then Finite 0
          else (case d of
                  None \<Rightarrow> NotANumber
                | Some t \<Rightarrow>
                    let elapsedHours = real_of_int (now - t) / (1000 * 60 * 60)
                    in jsDivide (real (processed st)) elapsedHours))"

section \<open>Notions used in the statements\<close>

text \<open>
  Two code units are the same letter when they are equal or one is the lower-case form of
  the other. Two strings differ only in case when they have the same length and the same
  letter at every place, \<open>list_all2 sameLetter\<close>.
\<close>

definition sameLetter :: "char \<Rightarrow> char \<Rightarrow> bool" where
  "sameLetter c d = (c = d \<or> d = toLowerChar c \<or> c = toLowerChar d)"

text \<open>
  The words that get an entry in the table of counts, and the value that \<open>n\<close>
  occurrences of a word leave there.
\<close>

definition keepWord :: "string \<Rightarrow> bool" where
  "keepWord w = (length w > 3 \<and> w \<notin> set stopWords \<and> w \<noteq> ''__proto__'')"

definition countOf :: "string \<Rightarrow> nat \<Rightarrow> countValue" where
  "countOf w n = (if w = ''constructor'' then ObjectSourceOnes n else Number n)"

text \<open>
  The day of a screenshot of the histogram, when its creation time is a valid date, and the
  count that a table of daily counts holds for a day, \<^verbatim>\<open>counts[dayKey] || 0\<close>.
\<close>

definition dayOfShot :: "(string \<Rightarrow> date) \<Rightarrow> (int \<Rightarrow> int) \<Rightarrow> histogramItem \<Rightarrow> int option" where
  "dayOfShot newDate dayOf s =
     (case newDate (created_at s) of Some t \<Rightarrow> Some (dayOf t) | None \<Rightarrow> None)"

definition countAt :: "(int \<times> nat) list \<Rightarrow> int \<Rightarrow> nat" where
  "countAt counts d = (case map_of counts d of Some c \<Rightarrow> c | None \<Rightarrow> 0)"

section \<open>Example data\<close>

text \<open>
  A screenshot with an identifier, a content and a creation time; a page state with the
  given screenshots and every filter off; and a date parser that knows three days
  (midnight UTC, in milliseconds) and answers the invalid date for every other string.
\<close>

definition shot :: "string \<Rightarrow> string \<Rightarrow> string \<Rightarrow> screenshot" where
  "shot i c t =
     \<lparr>screenshot_id = i, content = c,
      metadata = \<lparr>filename = i @ ''.png'', created_time = t, modified_time = t,
                  dimensions = [], device_type = [], md_path = [], original_path = []\<rparr>\<rparr>"

definition unfiltered :: "screenshot list \<Rightarrow> home" where
  "unfiltered xs =
     \<lparr>screenshots = xs, searchQuery = [], startDate = [], endDate = [],
      wordCloudFilter = [], pendingWordCloudFilter = [], selectedDateRange = None\<rparr>"

definition exampleDate :: "string \<Rightarrow> date" where
  "exampleDate s =
     (if s = ''2024-01-01'' then Some 1704067200000
      else if s = ''2024-01-02'' then Some 1704153600000
      else if s = ''2024-01-03'' then Some 1704240000000
      else None)"

text \<open>A timeline item with an identifier and a timestamp.\<close>

definition item :: "string \<Rightarrow> string \<Rightarrow> timelineItem" where
  "item i t =
     \<lparr>item_id = i, source_type = ''screenshot'', title = i, item_content = [], timestamp = t,
      extracted_concepts = [], concept_categories = [], importance_score = 0,
      summary = None, key_topics = None\<rparr>"

text \<open>
  A screenshot of the histogram with an identifier and a creation time, and the calendar
  day of a time value in a time zone without offset.
\<close>

definition hist :: "string \<Rightarrow> string \<Rightarrow> histogramItem" where
  "hist i t = \<lparr>hist_id = i, created_at = t\<rparr>"

definition utcDay :: "int \<Rightarrow> int" where
  "utcDay t = t div 86400000"

section \<open>Strings\<close>

lemma isUpperCase_digit5: "isUpperCase c \<Longrightarrow> \<not> digit5 c"
  unfolding isUpperCase_def Let_def
  by (cases c) (auto simp: of_bool_def split: if_splits)

lemma of_char_toLowerChar:
  "of_char (toLowerChar c) = (if isUpperCase c then of_char c + 32 else (of_char c :: nat))"
  unfolding toLowerChar_def using isUpperCase_digit5[of c]
  by (cases c) auto

lemma not_isUpperCase_toLowerChar: "\<not> isUpperCase (toLowerChar c)"
  using of_char_toLowerChar[of c] by (auto simp: isUpperCase_def Let_def split: if_splits)

lemma toLowerChar_idem: "toLowerChar (toLowerChar c) = toLowerChar c"
  using not_isUpperCase_toLowerChar[of c] by (simp add: toLowerChar_def[of "toLowerChar c"])

lemma toLowerChar_inj_upper:
  assumes "isUpperCase c" "isUpperCase d" "toLowerChar c = toLowerChar d"
  shows "c = d"
proof -
  have c: "(of_char (toLowerChar c) :: nat) = of_char c + 32"
    using assms(1) by (simp only: of_char_toLowerChar if_True)
  have d: "(of_char (toLowerChar d) :: nat) = of_char d + 32"
    using assms(2) by (simp only: of_char_toLowerChar if_True)
  have "(of_char c :: nat) + 32 = of_char d + 32"
    using c d assms(3) by (simp only:)
  then have "(of_char c :: nat) = of_char d" by (simp only: add_right_cancel)
  then show ?thesis by (simp only: of_char_eq_iff)
qed

lemma sameLetter_iff: "sameLetter c d \<longleftrightarrow> toLowerChar c = toLowerChar d"
proof
  assume "sameLetter c d"
  then show "toLowerChar c = toLowerChar d"
    unfolding sameLetter_def using toLowerChar_idem by metis
next
  assume eq: "toLowerChar c = toLowerChar d"
  show "sameLetter c d"
  proof (cases "isUpperCase c")
    case cu: True
    show ?thesis
    proof (cases "isUpperCase d")
      case True
      have "c = d" by (rule toLowerChar_inj_upper[OF cu True eq])
      then show ?thesis by (simp add: sameLetter_def)
    next
      case False
      then have "toLowerChar d = d" by (simp add: toLowerChar_def)
      with eq show ?thesis by (simp add: sameLetter_def)
    qed
  next
    case False
    then have "toLowerChar c = c" by (simp add: toLowerChar_def)
    with eq show ?thesis by (simp add: sameLetter_def)
  qed
qed

lemma toLowerCase_eq_iff: "toLowerCase m = toLowerCase w \<longleftrightarrow> list_all2 sameLetter m w"
proof (induction m arbitrary: w)
  case Nil
  then show ?case by (auto simp: toLowerCase_def)
next
  case (Cons a m)
  then show ?case by (cases w) (auto simp: toLowerCase_def sameLetter_iff)
qed

lemma startsWith_iff: "startsWith s sub \<longleftrightarrow> (\<exists>q. s = sub @ q)"
  by (induction s sub rule: startsWith.induct) auto

lemma includes_str_iff: "includes_str s sub \<longleftrightarrow> (\<exists>p q. s = p @ sub @ q)"
proof (induction s)
  case Nil
  then show ?case by auto
next
  case (Cons c cs)
  show ?case
  proof
    assume "includes_str (c # cs) sub"
    then consider "startsWith (c # cs) sub" | "includes_str cs sub" by auto
    then show "\<exists>p q. c # cs = p @ sub @ q"
    proof cases
      case 1
      then obtain q where "c # cs = [] @ sub @ q" by (auto simp: startsWith_iff)
      then show ?thesis by blast
    next
      case 2
      then obtain p q where "cs = p @ sub @ q" using Cons.IH by blast
      then have "c # cs = (c # p) @ sub @ q" by simp
      then show ?thesis by blast
    qed
  next
    assume "\<exists>p q. c # cs = p @ sub @ q"
    then obtain p q where pq: "c # cs = p @ sub @ q" by blast
    show "includes_str (c # cs) sub"
    proof (cases p)
      case Nil
      with pq have "startsWith (c # cs) sub" by (auto simp: startsWith_iff)
      then show ?thesis by simp
    next
      case (Cons a p')
      with pq have "cs = p' @ sub @ q" by simp
      then have "includes_str cs sub" using Cons.IH by blast
      then show ?thesis by simp
    qed
  qed
qed

lemma includes_lower_iff:
  "includes_str (toLowerCase s) (toLowerCase w) \<longleftrightarrow>
     (\<exists>p m r. s = p @ m @ r \<and> list_all2 sameLetter m w)"
proof
  assume "includes_str (toLowerCase s) (toLowerCase w)"
  then obtain p q where "map toLowerChar s = p @ map toLowerChar w @ q"
    by (auto simp: includes_str_iff toLowerCase_def)
  then obtain p' m r where "s = p' @ m @ r" "map toLowerChar m = map toLowerChar w"
    by (metis append_eq_map_conv)
  then show "\<exists>p m r. s = p @ m @ r \<and> list_all2 sameLetter m w"
    using toLowerCase_eq_iff[of m w] by (auto simp: toLowerCase_def)
next
  assume "\<exists>p m r. s = p @ m @ r \<and> list_all2 sameLetter m w"
  then obtain p m r where s: "s = p @ m @ r" and "list_all2 sameLetter m w" by blast
  then have "toLowerCase m = toLowerCase w" by (simp add: toLowerCase_eq_iff)
  then have "toLowerCase s = toLowerCase p @ toLowerCase w @ toLowerCase r"
    using s by (simp add: toLowerCase_def)
  then show "includes_str (toLowerCase s) (toLowerCase w)"
    unfolding includes_str_iff by blast
qed

section \<open>Filtering the screenshots\<close>

lemma filter_commute: "filter P (filter Q xs) = filter Q (filter P xs)"
  by (induction xs) auto


lemma wordStage_filter:
  "wordStage ws xs =
     filter (\<lambda>s. \<forall>w\<in>set ws. \<exists>p m r. content s = p @ m @ r \<and> list_all2 sameLetter m w) xs"
  by (simp add: wordStage_def includes_lower_iff list_all_iff Let_def)

lemma wordStage_Nil: "wordStage [] xs = xs"
  by (simp add: wordStage_def)

lemma searchStage_Nil: "searchStage [] xs = xs"
  by (simp add: searchStage_def)

lemma wordStage_commute: "wordStage ws (filter P xs) = filter P (wordStage ws xs)"
  unfolding wordStage_def by (auto intro!: filter_cong)


lemma dateStage_cong:
  "selectedDateRange st' = selectedDateRange st \<Longrightarrow> startDate st' = startDate st \<Longrightarrow>
   endDate st' = endDate st \<Longrightarrow> dateStage nd pISO st' = dateStage nd pISO st"
  by (simp add: dateStage_def fun_eq_iff cong: option.case_cong)



lemma filterScreenshots_words:
  "filterScreenshots nd pISO st =
     filter (\<lambda>s. \<forall>w\<in>set (wordCloudFilter st).
                   \<exists>p m r. content s = p @ m @ r \<and> list_all2 sameLetter m w)
       (filterScreenshots nd pISO (st\<lparr>wordCloudFilter := []\<rparr>))"
proof -
  have "dateStage nd pISO (st\<lparr>wordCloudFilter := []\<rparr>) = dateStage nd pISO st"
    by (rule dateStage_cong) simp_all
  then show ?thesis
    by (simp add: filterScreenshots_def wordStage_Nil wordStage_filter)
qed

lemma filterScreenshots_range:
  assumes "selectedDateRange st = Some (Some a, Some b)"
  shows "filterScreenshots nd pISO st =
        filter (\<lambda>s. case nd (created_time (metadata s)) of
                      Some t \<Rightarrow> a \<le> t \<and> t \<le> b | None \<Rightarrow> False)
          (filterScreenshots nd pISO
             (st\<lparr>selectedDateRange := None, startDate := [], endDate := []\<rparr>))"
proof -
  let ?P = "\<lambda>s. case nd (created_time (metadata s)) of
                      Some t \<Rightarrow> a \<le> t \<and> t \<le> b | None \<Rightarrow> False"
  let ?st0 = "st\<lparr>selectedDateRange := None, startDate := [], endDate := []\<rparr>"
  have d: "dateStage nd pISO st xs = filter ?P xs" for xs
    using assms
    by (auto simp: dateStage_def dateGe_def dateLe_def Let_def intro!: filter_cong split: option.splits)
  have d0: "dateStage nd pISO ?st0 xs = xs" for xs
    by (simp add: dateStage_def)
  show ?thesis
    by (simp add: filterScreenshots_def d d0 wordStage_commute)
qed

lemma filterScreenshots_dates:
  assumes "selectedDateRange st = None" "startDate st \<noteq> []" "endDate st \<noteq> []"
    "pISO (startDate st) = Some a" "pISO (endDate st) = Some b"
  shows "filterScreenshots nd pISO st =
        filter (\<lambda>s. case pISO (created_time (metadata s)) of
                      Some t \<Rightarrow> a \<le> t \<and> t \<le> b | None \<Rightarrow> False)
          (filterScreenshots nd pISO (st\<lparr>startDate := [], endDate := []\<rparr>))"
proof -
  let ?P = "\<lambda>s. case pISO (created_time (metadata s)) of
                      Some t \<Rightarrow> a \<le> t \<and> t \<le> b | None \<Rightarrow> False"
  let ?st0 = "st\<lparr>startDate := [], endDate := []\<rparr>"
  have d: "dateStage nd pISO st xs = filter ?P xs" for xs
    using assms
    by (auto simp: dateStage_def dateGe_def dateLe_def Let_def intro!: filter_cong split: option.splits)
  have d0: "dateStage nd pISO ?st0 xs = xs" for xs
    using assms(1) by (simp add: dateStage_def)
  show ?thesis
    by (simp add: filterScreenshots_def d d0 wordStage_commute)
qed

text \<open>
  Claim C1, the AND-filter of the word cloud. The filtered list is the list that the other
  filters leave, restricted to the screenshots whose content holds every filter word up to
  case: a piece \<open>m\<close> of the content is the word, letter for letter. With the other
  filters off, a screenshot is in the result exactly when it is one of the screenshots and
  its content holds every filter word. For the contents \<^verbatim>\<open>x y\<close>,
  \<^verbatim>\<open>x\<close> and \<^verbatim>\<open>x y z\<close> of A, B and C, the words
  \<^verbatim>\<open>x\<close> and \<^verbatim>\<open>y\<close> keep A and C.
\<close>

theorem concept_and_filter:
  "filterScreenshots nd pISO st =
     filter (\<lambda>s. \<forall>w\<in>set (wordCloudFilter st).
                   \<exists>p m r. content s = p @ m @ r \<and> list_all2 sameLetter m w)
       (filterScreenshots nd pISO (st\<lparr>wordCloudFilter := []\<rparr>)) \<and>
   (searchQuery st = [] \<and> selectedDateRange st = None \<and> startDate st = [] \<longrightarrow>
      (s \<in> set (filterScreenshots nd pISO st) \<longleftrightarrow>
         s \<in> set (screenshots st) \<and>
         (\<forall>w\<in>set (wordCloudFilter st).
            \<exists>p m r. content s = p @ m @ r \<and> list_all2 sameLetter m w))) \<and>
   filterScreenshots nd pISO
     ((unfiltered [shot ''A'' ''x y'' tA, shot ''B'' ''x'' tB, shot ''C'' ''x y z'' tC])
        \<lparr>wordCloudFilter := [''x'', ''y'']\<rparr>) =
     [shot ''A'' ''x y'' tA, shot ''C'' ''x y z'' tC]"
proof (intro conjI impI)
  show "filterScreenshots nd pISO st =
     filter (\<lambda>s. \<forall>w\<in>set (wordCloudFilter st).
                   \<exists>p m r. content s = p @ m @ r \<and> list_all2 sameLetter m w)
       (filterScreenshots nd pISO (st\<lparr>wordCloudFilter := []\<rparr>))"
    by (rule filterScreenshots_words)
next
  assume off: "searchQuery st = [] \<and> selectedDateRange st = None \<and> startDate st = []"
  then have "filterScreenshots nd pISO (st\<lparr>wordCloudFilter := []\<rparr>) = screenshots st"
    by (simp add: filterScreenshots_def wordStage_Nil searchStage_Nil dateStage_def)
  then show "s \<in> set (filterScreenshots nd pISO st) \<longleftrightarrow>
         s \<in> set (screenshots st) \<and>
         (\<forall>w\<in>set (wordCloudFilter st).
            \<exists>p m r. content s = p @ m @ r \<and> list_all2 sameLetter m w)"
    using filterScreenshots_words[of nd pISO st] by simp
next
  show "filterScreenshots nd pISO
     ((unfiltered [shot ''A'' ''x y'' tA, shot ''B'' ''x'' tB, shot ''C'' ''x y z'' tC])
        \<lparr>wordCloudFilter := [''x'', ''y'']\<rparr>) =
     [shot ''A'' ''x y'' tA, shot ''C'' ''x y z'' tC]"
    by (simp add: filterScreenshots_def unfiltered_def shot_def wordStage_def searchStage_def
        dateStage_def toLowerCase_def toLowerChar_def isUpperCase_def)
qed

text \<open>
  The theorem at a list of three screenshots and two filter words: the words are found in
  any case and anywhere in the content.
\<close>

theorem concept_and_filter_witness:
  "filter (\<lambda>s. \<forall>w\<in>set [''Alpha'', ''beta''].
                   \<exists>p m r. content s = p @ m @ r \<and> list_all2 sameLetter m w)
     [shot ''1'' ''alpha BETA'' [], shot ''2'' ''alpha'' [], shot ''3'' ''betalpha'' []] =
   [shot ''1'' ''alpha BETA'' [], shot ''3'' ''betalpha'' []]"
proof -
  let ?xs = "[shot ''1'' ''alpha BETA'' [], shot ''2'' ''alpha'' [], shot ''3'' ''betalpha'' []]"
  let ?st = "(unfiltered ?xs)\<lparr>wordCloudFilter := [''Alpha'', ''beta'']\<rparr>"
  have l: "filterScreenshots exampleDate exampleDate ?st =
             [shot ''1'' ''alpha BETA'' [], shot ''3'' ''betalpha'' []]"
    by (simp add: filterScreenshots_def unfiltered_def shot_def wordStage_def searchStage_def
        dateStage_def toLowerCase_def toLowerChar_def isUpperCase_def)
  have r: "filterScreenshots exampleDate exampleDate (?st\<lparr>wordCloudFilter := []\<rparr>) = ?xs"
    by (simp add: filterScreenshots_def unfiltered_def wordStage_def searchStage_def
        dateStage_def)
  have w: "wordCloudFilter ?st = [''Alpha'', ''beta'']"
    by (simp add: unfiltered_def)
  show ?thesis
    using concept_and_filter[of exampleDate exampleDate ?st, THEN conjunct1]
    unfolding l r w by simp
qed



text \<open>
  Claim C3, the date range. With a range selected in the histogram, and likewise with both
  date inputs filled in and valid, the filtered list is the list that the other filters
  leave, restricted to the screenshots whose creation time \<open>t\<close> is a valid date with
  \<open>a \<le> t \<le> b\<close>. A screenshot created exactly at the start or exactly at the end
  of a range that is not empty is kept.
\<close>

theorem range_inclusive:
  "(selectedDateRange st = Some (Some a, Some b) \<longrightarrow>
      filterScreenshots nd pISO st =
        filter (\<lambda>s. case nd (created_time (metadata s)) of
                      Some t \<Rightarrow> a \<le> t \<and> t \<le> b | None \<Rightarrow> False)
          (filterScreenshots nd pISO
             (st\<lparr>selectedDateRange := None, startDate := [], endDate := []\<rparr>))) \<and>
   (selectedDateRange st = None \<and> startDate st \<noteq> [] \<and> endDate st \<noteq> [] \<and>
    pISO (startDate st) = Some a \<and> pISO (endDate st) = Some b \<longrightarrow>
      filterScreenshots nd pISO st =
        filter (\<lambda>s. case pISO (created_time (metadata s)) of
                      Some t \<Rightarrow> a \<le> t \<and> t \<le> b | None \<Rightarrow> False)
          (filterScreenshots nd pISO (st\<lparr>startDate := [], endDate := []\<rparr>))) \<and>
   (selectedDateRange st = Some (Some a, Some b) \<and> a \<le> b \<and>
    s \<in> set (filterScreenshots nd pISO
               (st\<lparr>selectedDateRange := None, startDate := [], endDate := []\<rparr>)) \<and>
    (nd (created_time (metadata s)) = Some a \<or> nd (created_time (metadata s)) = Some b) \<longrightarrow>
      s \<in> set (filterScreenshots nd pISO st))"
proof (intro conjI impI)
  assume "selectedDateRange st = Some (Some a, Some b)"
  then show "filterScreenshots nd pISO st =
        filter (\<lambda>s. case nd (created_time (metadata s)) of
                      Some t \<Rightarrow> a \<le> t \<and> t \<le> b | None \<Rightarrow> False)
          (filterScreenshots nd pISO
             (st\<lparr>selectedDateRange := None, startDate := [], endDate := []\<rparr>))"
    by (rule filterScreenshots_range)
next
  assume "selectedDateRange st = None \<and> startDate st \<noteq> [] \<and> endDate st \<noteq> [] \<and>
    pISO (startDate st) = Some a \<and> pISO (endDate st) = Some b"
  then show "filterScreenshots nd pISO st =
        filter (\<lambda>s. case pISO (created_time (metadata s)) of
                      Some t \<Rightarrow> a \<le> t \<and> t \<le> b | None \<Rightarrow> False)
          (filterScreenshots nd pISO (st\<lparr>startDate := [], endDate := []\<rparr>))"
    using filterScreenshots_dates by blast
next
  assume h: "selectedDateRange st = Some (Some a, Some b) \<and> a \<le> b \<and>
    s \<in> set (filterScreenshots nd pISO
               (st\<lparr>selectedDateRange := None, startDate := [], endDate := []\<rparr>)) \<and>
    (nd (created_time (metadata s)) = Some a \<or> nd (created_time (metadata s)) = Some b)"
  then have "filterScreenshots nd pISO st =
        filter (\<lambda>s. case nd (created_time (metadata s)) of
                      Some t \<Rightarrow> a \<le> t \<and> t \<le> b | None \<Rightarrow> False)
          (filterScreenshots nd pISO
             (st\<lparr>selectedDateRange := None, startDate := [], endDate := []\<rparr>))"
    using filterScreenshots_range by blast
  then show "s \<in> set (filterScreenshots nd pISO st)"
    using h by auto
qed

text \<open>
  The theorem at four screenshots, one of them at each bound and one without a valid
  creation time, for a selected range and for the two date inputs.
\<close>

theorem range_inclusive_witness:
  "filterScreenshots exampleDate exampleDate
     ((unfiltered [shot ''A'' [] ''2024-01-01'', shot ''B'' [] ''2024-01-03'',
                   shot ''C'' [] ''2024-01-02'', shot ''D'' [] ''soon''])
        \<lparr>selectedDateRange := Some (Some 1704067200000, Some 1704153600000)\<rparr>) =
     [shot ''A'' [] ''2024-01-01'', shot ''C'' [] ''2024-01-02''] \<and>
   filterScreenshots exampleDate exampleDate
     ((unfiltered [shot ''A'' [] ''2024-01-01'', shot ''B'' [] ''2024-01-03'',
                   shot ''C'' [] ''2024-01-02'', shot ''D'' [] ''soon''])
        \<lparr>startDate := ''2024-01-02'', endDate := ''2024-01-03''\<rparr>) =
     [shot ''B'' [] ''2024-01-03'', shot ''C'' [] ''2024-01-02'']"
proof -
  let ?xs = "[shot ''A'' [] ''2024-01-01'', shot ''B'' [] ''2024-01-03'',
              shot ''C'' [] ''2024-01-02'', shot ''D'' [] ''soon'']"
  let ?s1 = "(unfiltered ?xs)\<lparr>selectedDateRange := Some (Some 1704067200000, Some 1704153600000)\<rparr>"
  let ?s2 = "(unfiltered ?xs)\<lparr>startDate := ''2024-01-02'', endDate := ''2024-01-03''\<rparr>"
  have off1: "filterScreenshots exampleDate exampleDate
      (?s1\<lparr>selectedDateRange := None, startDate := [], endDate := []\<rparr>) = ?xs"
    by (simp add: filterScreenshots_def unfiltered_def wordStage_def searchStage_def dateStage_def)
  have off2: "filterScreenshots exampleDate exampleDate (?s2\<lparr>startDate := [], endDate := []\<rparr>) = ?xs"
    by (simp add: filterScreenshots_def unfiltered_def wordStage_def searchStage_def dateStage_def)
  have h1: "selectedDateRange ?s1 = Some (Some 1704067200000, Some 1704153600000)"
    by (simp add: unfiltered_def)
  have h2: "selectedDateRange ?s2 = None \<and> startDate ?s2 \<noteq> [] \<and> endDate ?s2 \<noteq> [] \<and>
    exampleDate (startDate ?s2) = Some 1704153600000 \<and>
    exampleDate (endDate ?s2) = Some 1704240000000"
    by (simp add: unfiltered_def exampleDate_def)
  have 1: "filterScreenshots exampleDate exampleDate ?s1 =
     [shot ''A'' [] ''2024-01-01'', shot ''C'' [] ''2024-01-02'']"
    using range_inclusive[of ?s1 1704067200000 1704153600000 exampleDate exampleDate,
        THEN conjunct1, rule_format, OF h1]
    unfolding off1 by (simp add: shot_def exampleDate_def)
  have 2: "filterScreenshots exampleDate exampleDate ?s2 =
     [shot ''B'' [] ''2024-01-03'', shot ''C'' [] ''2024-01-02'']"
    using range_inclusive[of ?s2 1704153600000 1704240000000 exampleDate exampleDate,
        THEN conjunct2, THEN conjunct1, rule_format, OF h2]
    unfolding off2 by (simp add: shot_def exampleDate_def)
  show ?thesis using 1 2 by (rule conjI)
qed

text \<open>
  Claim C10 as the specification states it, that two shift-clicks on the same word restore
  the pending filter, fails when the word is in the filter and is not its last word: the
  word comes back at the end.
\<close>

theorem word_click_toggle_order_counterexample:
  "pendingWordCloudFilter
     (handleWordClick ''a'' True
        (handleWordClick ''a'' True ((unfiltered [])\<lparr>pendingWordCloudFilter := [''a'', ''b'']\<rparr>)))
   \<noteq> pendingWordCloudFilter ((unfiltered [])\<lparr>pendingWordCloudFilter := [''a'', ''b'']\<rparr>)"
  by (simp add: handleWordClick_def unfiltered_def)

text \<open>
  Claim C10, amended. A plain click makes the word the whole pending filter. A shift-click
  toggles the word and leaves the membership of every other word alone, so two
  shift-clicks on the same word restore the set of words of the pending filter. They
  restore the list itself when the word was not in it; when the word was in it, the word
  has moved to the end.
\<close>

theorem word_click_algebra:
  "pendingWordCloudFilter (handleWordClick w False st) = [w] \<and>
   (w \<in> set (pendingWordCloudFilter (handleWordClick w True st)) \<longleftrightarrow>
      w \<notin> set (pendingWordCloudFilter st)) \<and>
   (\<forall>v. v \<noteq> w \<longrightarrow>
      (v \<in> set (pendingWordCloudFilter (handleWordClick w True st)) \<longleftrightarrow>
       v \<in> set (pendingWordCloudFilter st))) \<and>
   set (pendingWordCloudFilter (handleWordClick w True (handleWordClick w True st))) =
     set (pendingWordCloudFilter st) \<and>
   (w \<notin> set (pendingWordCloudFilter st) \<longrightarrow>
      pendingWordCloudFilter (handleWordClick w True (handleWordClick w True st)) =
        pendingWordCloudFilter st) \<and>
   (w \<in> set (pendingWordCloudFilter st) \<longrightarrow>
      pendingWordCloudFilter (handleWordClick w True (handleWordClick w True st)) =
        filter (\<lambda>v. v \<noteq> w) (pendingWordCloudFilter st) @ [w])"
  by (auto simp: handleWordClick_def Let_def filter_id_conv)

text \<open>The theorem at a word outside the pending filter and at a word inside it.\<close>

theorem word_click_algebra_witness:
  "''c'' \<notin> set [''a'', ''b''] \<and>
   pendingWordCloudFilter
     (handleWordClick ''c'' True
        (handleWordClick ''c'' True ((unfiltered [])\<lparr>pendingWordCloudFilter := [''a'', ''b'']\<rparr>))) =
     [''a'', ''b''] \<and>
   ''a'' \<in> set [''a'', ''b''] \<and>
   pendingWordCloudFilter
     (handleWordClick ''a'' True
        (handleWordClick ''a'' True ((unfiltered [])\<lparr>pendingWordCloudFilter := [''a'', ''b'']\<rparr>))) =
     [''b'', ''a'']"
  using word_click_algebra[of "''c''" "(unfiltered [])\<lparr>pendingWordCloudFilter := [''a'', ''b'']\<rparr>"]
    word_click_algebra[of "''a''" "(unfiltered [])\<lparr>pendingWordCloudFilter := [''a'', ''b'']\<rparr>"]
  by (simp add: unfiltered_def)

section \<open>Sorting\<close>

lemma mset_insertBy: "mset (insertBy cmp x xs) = add_mset x (mset xs)"
  by (induction xs) auto

lemma mset_sortBy: "mset (sortBy cmp xs) = mset xs"
  unfolding sortBy_def by (induction xs) (auto simp: mset_insertBy)

lemma set_sortBy: "set (sortBy cmp xs) = set xs"
  using mset_sortBy[of cmp xs] by (metis set_mset_mset)

lemma insertBy_insort_key:
  assumes "\<forall>y\<in>set ys. cmp x y = Some (g x - g y)"
  shows "insertBy cmp x ys = insort_key g x ys"
  using assms by (induction ys) (auto simp: sortCompare_def)

lemma sortBy_sort_key:
  assumes "\<forall>x\<in>set xs. \<forall>y\<in>set xs. cmp x y = Some (g x - g y)"
  shows "sortBy cmp xs = sort_key g xs"
  using assms
proof (induction xs)
  case Nil
  then show ?case by (simp add: sortBy_def)
next
  case (Cons a xs)
  have ih: "sortBy cmp xs = sort_key g xs"
    using Cons by simp
  have "\<forall>y\<in>set (sort_key g xs). cmp a y = Some (g a - g y)"
    using Cons.prems by simp
  then have "insertBy cmp a (sort_key g xs) = insort_key g a (sort_key g xs)"
    by (rule insertBy_insort_key)
  moreover have "sortBy cmp (a # xs) = insertBy cmp a (sortBy cmp xs)"
    by (simp add: sortBy_def)
  ultimately show ?case
    using ih by simp
qed

lemma filteredItems_sortBy:
  "filteredItems nd src cat xs =
     sortBy (byTimestampDesc nd)
       (filter (\<lambda>i. (case src of Some s \<Rightarrow> s \<noteq> [] \<longrightarrow> source_type i = s | None \<Rightarrow> True) \<and>
                    (case cat of Some c \<Rightarrow> c \<noteq> [] \<longrightarrow> c \<in> set (concept_categories i)
                     | None \<Rightarrow> True)) xs)"
  unfolding filteredItems_def Let_def
  by (cases src; cases cat) (auto intro!: arg_cong[where f="sortBy (byTimestampDesc nd)"] filter_cong)

lemma sorted_desc_timestamps:
  assumes v: "\<forall>i\<in>set ys. nd (timestamp i) \<noteq> None"
  shows "sorted_wrt (\<lambda>a b. \<exists>x y. nd (timestamp a) = Some x \<and> nd (timestamp b) = Some y \<and> y \<le> x)
           (sortBy (byTimestampDesc nd) ys)"
proof -
  let ?g = "\<lambda>i. case nd (timestamp i) of Some t \<Rightarrow> - t | None \<Rightarrow> 0"
  have c: "\<forall>x\<in>set ys. \<forall>y\<in>set ys. byTimestampDesc nd x y = Some (?g x - ?g y)"
    using v by (auto simp: byTimestampDesc_def split: option.splits)
  have eq: "sortBy (byTimestampDesc nd) ys = sort_key ?g ys"
    using c by (rule sortBy_sort_key)
  have "sorted (map ?g (sort_key ?g ys))"
    by (rule sorted_sort_key)
  then have s: "sorted_wrt (\<lambda>a b. ?g a \<le> ?g b) (sort_key ?g ys)"
    by (simp add: sorted_map)
  have "sorted_wrt (\<lambda>a b. \<exists>x y. nd (timestamp a) = Some x \<and> nd (timestamp b) = Some y \<and> y \<le> x)
           (sort_key ?g ys)"
  proof (rule sorted_wrt_mono_rel[OF _ s])
    fix a b
    assume a: "a \<in> set (sort_key ?g ys)" and b: "b \<in> set (sort_key ?g ys)"
      and le: "?g a \<le> ?g b"
    from a v obtain x where x: "nd (timestamp a) = Some x" by auto
    from b v obtain y where y: "nd (timestamp b) = Some y" by auto
    from le x y have "y \<le> x" by simp
    with x y show "\<exists>x y. nd (timestamp a) = Some x \<and> nd (timestamp b) = Some y \<and> y \<le> x"
      by blast
  qed
  then show ?thesis
    using eq by simp
qed

section \<open>The order of the timeline\<close>

text \<open>
  Claim C6 as the specification states it, for every list of timeline items, fails on a
  list with a timestamp that is not a date: the comparator answers NaN for every pair
  with that item, the sort leaves the three items where they are, and the item of
  1 January stays in front of the item of 2 January.
\<close>

theorem timeline_invalid_timestamp_counterexample:
  "filteredItems exampleDate None None
     [item ''a'' ''2024-01-01'', item ''b'' ''not a date'', item ''c'' ''2024-01-02''] =
     [item ''a'' ''2024-01-01'', item ''b'' ''not a date'', item ''c'' ''2024-01-02''] \<and>
   \<not> sorted_wrt (\<lambda>a b. \<forall>x y. exampleDate (timestamp a) = Some x \<and>
                              exampleDate (timestamp b) = Some y \<longrightarrow> y \<le> x)
       (filteredItems exampleDate None None
          [item ''a'' ''2024-01-01'', item ''b'' ''not a date'', item ''c'' ''2024-01-02''])"
proof -
  have e: "filteredItems exampleDate None None
     [item ''a'' ''2024-01-01'', item ''b'' ''not a date'', item ''c'' ''2024-01-02''] =
     [item ''a'' ''2024-01-01'', item ''b'' ''not a date'', item ''c'' ''2024-01-02'']"
    by (simp add: filteredItems_def sortBy_def sortCompare_def byTimestampDesc_def item_def
        exampleDate_def)
  show ?thesis
    unfolding e by (simp add: item_def exampleDate_def)
qed

text \<open>
  Claim C6, amended. The displayed list holds exactly the items that pass the source and
  category selections. When every displayed item has a timestamp that is a valid date,
  the list is sorted by timestamp, newest first.
\<close>

theorem timeline_newest_first:
  "mset (filteredItems nd src cat xs) =
     mset (filter (\<lambda>i. (case src of Some s \<Rightarrow> s \<noteq> [] \<longrightarrow> source_type i = s | None \<Rightarrow> True) \<and>
                    (case cat of Some c \<Rightarrow> c \<noteq> [] \<longrightarrow> c \<in> set (concept_categories i)
                     | None \<Rightarrow> True)) xs) \<and>
   ((\<forall>i\<in>set (filteredItems nd src cat xs). nd (timestamp i) \<noteq> None) \<longrightarrow>
      sorted_wrt (\<lambda>a b. \<exists>x y. nd (timestamp a) = Some x \<and> nd (timestamp b) = Some y \<and> y \<le> x)
        (filteredItems nd src cat xs))"
proof (intro conjI impI)
  show "mset (filteredItems nd src cat xs) =
     mset (filter (\<lambda>i. (case src of Some s \<Rightarrow> s \<noteq> [] \<longrightarrow> source_type i = s | None \<Rightarrow> True) \<and>
                    (case cat of Some c \<Rightarrow> c \<noteq> [] \<longrightarrow> c \<in> set (concept_categories i)
                     | None \<Rightarrow> True)) xs)"
    by (simp only: filteredItems_sortBy mset_sortBy)
next
  assume "\<forall>i\<in>set (filteredItems nd src cat xs). nd (timestamp i) \<noteq> None"
  then show "sorted_wrt (\<lambda>a b. \<exists>x y. nd (timestamp a) = Some x \<and> nd (timestamp b) = Some y \<and> y \<le> x)
        (filteredItems nd src cat xs)"
    unfolding filteredItems_sortBy set_sortBy by (rule sorted_desc_timestamps)
qed

text \<open>The theorem at three items with valid timestamps and a source selection.\<close>

theorem timeline_newest_first_witness:
  "exampleDate ''2024-01-01'' = Some 1704067200000 \<and>
   exampleDate ''2024-01-02'' = Some 1704153600000 \<and>
   exampleDate ''2024-01-03'' = Some 1704240000000 \<and>
   filteredItems exampleDate (Some ''screenshot'') None
     [item ''a'' ''2024-01-02'', item ''b'' ''2024-01-01'', item ''c'' ''2024-01-03''] =
     [item ''c'' ''2024-01-03'', item ''a'' ''2024-01-02'', item ''b'' ''2024-01-01''] \<and>
   sorted_wrt (\<lambda>a b. \<exists>x y. exampleDate (timestamp a) = Some x \<and>
                            exampleDate (timestamp b) = Some y \<and> y \<le> x)
     [item ''c'' ''2024-01-03'', item ''a'' ''2024-01-02'', item ''b'' ''2024-01-01'']"
proof -
  let ?xs = "[item ''a'' ''2024-01-02'', item ''b'' ''2024-01-01'', item ''c'' ''2024-01-03'']"
  have e: "filteredItems exampleDate (Some ''screenshot'') None ?xs =
     [item ''c'' ''2024-01-03'', item ''a'' ''2024-01-02'', item ''b'' ''2024-01-01'']"
    by (simp add: filteredItems_def sortBy_def sortCompare_def byTimestampDesc_def item_def
        exampleDate_def)
  have d: "exampleDate ''2024-01-01'' = Some 1704067200000 \<and>
   exampleDate ''2024-01-02'' = Some 1704153600000 \<and>
   exampleDate ''2024-01-03'' = Some 1704240000000"
    by (simp add: exampleDate_def)
  have "\<forall>i\<in>set (filteredItems exampleDate (Some ''screenshot'') None ?xs).
               exampleDate (timestamp i) \<noteq> None"
    unfolding e using d by (simp add: item_def)
  then have "sorted_wrt (\<lambda>a b. \<exists>x y. exampleDate (timestamp a) = Some x \<and>
                            exampleDate (timestamp b) = Some y \<and> y \<le> x)
     (filteredItems exampleDate (Some ''screenshot'') None ?xs)"
    using timeline_newest_first[of exampleDate "Some ''screenshot''" None ?xs] by blast
  then show ?thesis
    using d e by simp
qed

section \<open>The table of word counts\<close>

lemma isSpaceChar_not_upper: "isSpaceChar c \<Longrightarrow> \<not> isUpperCase c"
  by (auto simp: isSpaceChar_def isUpperCase_def Let_def)

lemma isSpaceChar_not_word: "isSpaceChar c \<Longrightarrow> \<not> isWordChar c"
  by (auto simp: isSpaceChar_def isWordChar_def Let_def)

lemma toLowerChar_space: "isSpaceChar c \<Longrightarrow> toLowerChar c = c"
  by (simp add: toLowerChar_def isSpaceChar_not_upper)

lemma splitSpaces_chars:
  "t \<in> set (splitSpaces cur s) \<Longrightarrow> c \<in> set t \<Longrightarrow>
     c \<in> set cur \<or> (c \<in> set s \<and> \<not> isSpaceChar c)"
proof (induction s arbitrary: cur)
  case Nil
  then show ?case by simp
next
  case (Cons a s)
  show ?case
  proof (cases "isSpaceChar a")
    case True
    then show ?thesis
      using Cons.IH[of cur] Cons.IH[of "[]"] Cons.prems
      by (auto split: if_splits)
  next
    case False
    then show ?thesis
      using Cons.IH[of "cur @ [a]"] Cons.prems by auto
  qed
qed

lemma concat_splitSpaces:
  "concat (splitSpaces cur s) = cur @ filter (\<lambda>c. \<not> isSpaceChar c) s"
  by (induction s arbitrary: cur) auto

lemma cleanText_chars:
  "c \<in> set (cleanText txt) \<Longrightarrow> \<not> isUpperCase c \<and> (isWordChar c \<or> isSpaceChar c)"
  by (auto simp: cleanText_def toLowerCase_def not_isUpperCase_toLowerChar)

lemma wordArray_chars:
  assumes "t \<in> set (wordArray txt)" "c \<in> set t"
  shows "isWordChar c \<and> \<not> isSpaceChar c \<and> \<not> isUpperCase c"
proof -
  from assms have "c \<in> set (cleanText txt) \<and> \<not> isSpaceChar c"
    using splitSpaces_chars[of t "[]" "cleanText txt" c] by (simp add: wordArray_def)
  then show ?thesis using cleanText_chars[of c "txt"] by blast
qed

lemma toLowerCase_id: "(\<forall>c\<in>set t. \<not> isUpperCase c) \<Longrightarrow> toLowerCase t = t"
  by (induction t) (auto simp: toLowerCase_def toLowerChar_def)

lemma countWords_snoc: "countWords (ws @ [w]) = countWord (countWords ws) w"
  by (simp add: countWords_def)

lemma countWord_skip: "\<not> keepWord w \<Longrightarrow> countWord tbl w = tbl"
  by (auto simp: countWord_def keepWord_def)

lemma countWord_keep:
  "keepWord w \<Longrightarrow> countWord tbl w =
     AList.update w (case map_of tbl w of
                       Some (Number n) \<Rightarrow> Number (n + 1)
                     | Some (ObjectSourceOnes k) \<Rightarrow> ObjectSourceOnes (k + 1)
                     | None \<Rightarrow> if w = ''constructor'' then ObjectSourceOnes 1 else Number 1) tbl"
  by (auto simp: countWord_def keepWord_def)

lemma countWords_table:
  "distinct (map fst (countWords ws)) \<and>
   (\<forall>w. map_of (countWords ws) w =
      (if keepWord w \<and> w \<in> set ws then Some (countOf w (count_list ws w)) else None))"
proof (induction ws rule: rev_induct)
  case Nil
  then show ?case by (simp add: countWords_def)
next
  case (snoc x ws)
  then have d: "distinct (map fst (countWords ws))"
    and m: "\<And>w. map_of (countWords ws) w =
      (if keepWord w \<and> w \<in> set ws then Some (countOf w (count_list ws w)) else None)"
    by blast+
  show ?case
  proof (cases "keepWord x")
    case False
    then have "countWords (ws @ [x]) = countWords ws"
      by (simp add: countWords_snoc countWord_skip)
    then show ?thesis using d m False by auto
  next
    case True
    let ?v = "case map_of (countWords ws) x of
                       Some (Number n) \<Rightarrow> Number (n + 1)
                     | Some (ObjectSourceOnes k) \<Rightarrow> ObjectSourceOnes (k + 1)
                     | None \<Rightarrow> if x = ''constructor'' then ObjectSourceOnes 1 else Number 1"
    have e: "countWords (ws @ [x]) = AList.update x ?v (countWords ws)"
      using True by (simp add: countWords_snoc countWord_keep)
    have v: "?v = countOf x (count_list ws x + 1)"
    proof (cases "x \<in> set ws")
      case True
      then show ?thesis using m[of x] \<open>keepWord x\<close> by (simp add: countOf_def)
    next
      case False
      then have "count_list ws x = 0" by (simp add: count_list_0_iff)
      then show ?thesis using m[of x] False by (simp add: countOf_def)
    qed
    have d': "distinct (map fst (countWords (ws @ [x])))"
      unfolding e using d by (rule distinct_update)
    have m': "map_of (countWords (ws @ [x])) w =
      (if keepWord w \<and> w \<in> set (ws @ [x])
       then Some (countOf w (count_list (ws @ [x]) w)) else None)" for w
      unfolding e update_conv' v using m[of w] True by auto
    show ?thesis using d' m' by blast
  qed
qed

lemma countWords_distinct: "distinct (map fst (countWords ws))"
  using countWords_table by blast

lemma countWords_map_of:
  "map_of (countWords ws) w =
      (if keepWord w \<and> w \<in> set ws then Some (countOf w (count_list ws w)) else None)"
  using countWords_table by blast

lemma countWords_mem:
  "(w, v) \<in> set (countWords ws) \<longleftrightarrow>
     keepWord w \<and> w \<in> set ws \<and> v = countOf w (count_list ws w)"
proof -
  have "(w, v) \<in> set (countWords ws) \<longleftrightarrow> map_of (countWords ws) w = Some v"
    using countWords_distinct[of ws] by simp
  then show ?thesis by (auto simp: countWords_map_of)
qed

lemma mset_entries: "mset (entries obj) = mset obj"
  by (simp add: entries_def)

lemma set_entries: "set (entries obj) = set obj"
  using mset_entries[of obj] by (metis set_mset_mset)

lemma set_ranked: "set (ranked t) = set (countWords (wordArray t))"
  by (simp add: ranked_def set_sortBy set_entries)

lemma words_subset: "set (words t) \<subseteq> set (countWords (wordArray t))"
  using set_take_subset[of 50 "ranked t"] by (simp add: words_def set_ranked)

lemma words_mem:
  assumes "(w, v) \<in> set (words t)"
  shows "keepWord w \<and> w \<in> set (wordArray t) \<and> v = countOf w (count_list (wordArray t) w)"
  using assms words_subset[of t] countWords_mem[of w v "wordArray t"] by blast

lemma splitSpaces_space:
  assumes "f [] = []"
  shows "isSpaceChar c \<Longrightarrow>
     filter (\<lambda>t. t \<noteq> []) (map f (splitSpaces cur (c # s))) =
     filter (\<lambda>t. t \<noteq> []) [f cur] @ filter (\<lambda>t. t \<noteq> []) (map f (splitSpaces [] s))"
proof (induction s arbitrary: cur c)
  case Nil
  then show ?case using assms by simp
next
  case (Cons d s)
  show ?case
  proof (cases "isSpaceChar d")
    case True
    have "splitSpaces cur (c # d # s) = splitSpaces cur (d # s)"
      using Cons.prems True by simp
    then show ?thesis
      using Cons.IH[OF True, of cur] Cons.IH[OF True, of "[]"] assms by simp
  next
    case False
    then have "splitSpaces cur (c # d # s) = cur # splitSpaces [] (d # s)"
      using Cons.prems by simp
    then show ?thesis by simp
  qed
qed

lemma cleanText_Nil: "cleanText [] = []"
  by (simp add: cleanText_def toLowerCase_def)

lemma cleanText_append: "cleanText (a @ b) = cleanText a @ cleanText b"
  by (simp add: cleanText_def toLowerCase_def)

lemma cleanText_space: "isSpaceChar c \<Longrightarrow> cleanText (c # s) = c # cleanText s"
  by (simp add: cleanText_def toLowerCase_def toLowerChar_space)

lemma cleanText_spaces: "\<forall>c\<in>set sp. isSpaceChar c \<Longrightarrow> cleanText sp = sp"
  by (induction sp) (simp_all add: cleanText_Nil cleanText_space)

lemma cleanText_nonspace:
  "\<not> isSpaceChar c \<Longrightarrow>
     cleanText (c # s) = (if isWordChar (toLowerChar c) then [toLowerChar c] else []) @ cleanText s \<and>
     \<not> isSpaceChar (toLowerChar c)"
proof -
  assume n: "\<not> isSpaceChar c"
  have "\<not> isSpaceChar (toLowerChar c)"
    using n of_char_toLowerChar[of c]
    by (auto simp: isSpaceChar_def isUpperCase_def Let_def split: if_splits)
  then show ?thesis by (simp add: cleanText_def toLowerCase_def)
qed

lemma splitSpaces_cleanText:
  "filter (\<lambda>t. t \<noteq> []) (splitSpaces (cleanText cur) (cleanText s)) =
   filter (\<lambda>t. t \<noteq> []) (map cleanText (splitSpaces cur s))"
proof (induction s arbitrary: cur)
  case Nil
  then show ?case by (simp add: cleanText_Nil)
next
  case (Cons c s)
  show ?case
  proof (cases "isSpaceChar c")
    case True
    have l: "filter (\<lambda>t. t \<noteq> []) (splitSpaces (cleanText cur) (c # cleanText s)) =
      filter (\<lambda>t. t \<noteq> []) [cleanText cur] @
      filter (\<lambda>t. t \<noteq> []) (splitSpaces [] (cleanText s))"
      using splitSpaces_space[of "\<lambda>t. t", OF _ True, of "cleanText cur" "cleanText s"] by simp
    have r: "filter (\<lambda>t. t \<noteq> []) (map cleanText (splitSpaces cur (c # s))) =
      filter (\<lambda>t. t \<noteq> []) [cleanText cur] @
      filter (\<lambda>t. t \<noteq> []) (map cleanText (splitSpaces [] s))"
      using splitSpaces_space[of cleanText, OF cleanText_Nil True] .
    show ?thesis
      unfolding cleanText_space[OF True] l r using Cons.IH[of "[]"]
      by (simp add: cleanText_Nil)
  next
    case False
    note ns = cleanText_nonspace[OF False, of s]
    have r: "splitSpaces cur (c # s) = splitSpaces (cur @ [c]) s"
      using False by simp
    show ?thesis
    proof (cases "isWordChar (toLowerChar c)")
      case True
      then have c1: "cleanText (c # s) = toLowerChar c # cleanText s"
        using ns by simp
      have c2: "cleanText (cur @ [c]) = cleanText cur @ [toLowerChar c]"
        using True by (simp add: cleanText_def toLowerCase_def)
      have "splitSpaces (cleanText cur) (toLowerChar c # cleanText s) =
              splitSpaces (cleanText cur @ [toLowerChar c]) (cleanText s)"
        using ns by simp
      then show ?thesis
        unfolding r c1 using Cons.IH[of "cur @ [c]"] c2 by simp
    next
      case False
      then have c1: "cleanText (c # s) = cleanText s"
        using ns by simp
      have c2: "cleanText (cur @ [c]) = cleanText cur"
        using False ns by (simp add: cleanText_def toLowerCase_def)
      show ?thesis
        unfolding r c1 using Cons.IH[of "cur @ [c]"] c2 by simp
    qed
  qed
qed

lemma wordArray_pieces:
  "filter (\<lambda>t. t \<noteq> []) (wordArray t) =
   filter (\<lambda>t. t \<noteq> []) (map cleanText (splitSpaces [] t))"
  using splitSpaces_cleanText[of "[]" t] by (simp add: wordArray_def cleanText_Nil)

lemma count_list_nonempty:
  "w \<noteq> [] \<Longrightarrow> count_list (filter (\<lambda>t. t \<noteq> []) xs) w = count_list xs w"
  by (induction xs) auto

lemma count_list_map: "count_list (map f xs) w = length (filter (\<lambda>p. f p = w) xs)"
  by (induction xs) auto

lemma count_wordArray:
  assumes "w \<noteq> []"
  shows "count_list (wordArray t) w = length (filter (\<lambda>p. cleanText p = w) (splitSpaces [] t))"
proof -
  have "count_list (wordArray t) w = count_list (filter (\<lambda>t. t \<noteq> []) (wordArray t)) w"
    using assms by (simp add: count_list_nonempty)
  also have "\<dots> = count_list (map cleanText (splitSpaces [] t)) w"
    unfolding wordArray_pieces using assms by (simp add: count_list_nonempty)
  finally show ?thesis by (simp add: count_list_map)
qed

lemma countWords_nonempty:
  "foldl countWord tbl (filter (\<lambda>t. t \<noteq> []) ws) = foldl countWord tbl ws"
  by (induction ws arbitrary: tbl) (auto simp: countWord_def)

lemma ranked_nonempty:
  assumes "filter (\<lambda>t. t \<noteq> []) (wordArray a) = filter (\<lambda>t. t \<noteq> []) (wordArray b)"
  shows "ranked a = ranked b"
proof -
  have "countWords (wordArray a) = countWords (wordArray b)"
    unfolding countWords_def
    using assms countWords_nonempty[of "[]" "wordArray a"] countWords_nonempty[of "[]" "wordArray b"]
    by simp
  then show ?thesis by (simp add: ranked_def)
qed

lemma splitSpaces_leading:
  "\<forall>c\<in>set sp. isSpaceChar c \<Longrightarrow>
     filter (\<lambda>t. t \<noteq> []) (splitSpaces [] (sp @ s)) = filter (\<lambda>t. t \<noteq> []) (splitSpaces [] s)"
proof (induction sp)
  case Nil
  then show ?case by simp
next
  case (Cons c sp)
  then have "filter (\<lambda>t. t \<noteq> []) (splitSpaces [] (c # (sp @ s))) =
     filter (\<lambda>t. t \<noteq> []) (splitSpaces [] (sp @ s))"
    using splitSpaces_space[of "\<lambda>t. t" c "[]" "sp @ s"] by simp
  then show ?case using Cons by simp
qed

lemma splitSpaces_trailing:
  "\<forall>c\<in>set sp. isSpaceChar c \<Longrightarrow>
     filter (\<lambda>t. t \<noteq> []) (splitSpaces cur (s @ sp)) = filter (\<lambda>t. t \<noteq> []) (splitSpaces cur s)"
proof (induction s arbitrary: cur)
  case Nil
  show ?case
  proof (cases sp)
    case Nil
    then show ?thesis by simp
  next
    case (Cons c sp')
    then have c: "isSpaceChar c" and r: "\<forall>c\<in>set sp'. isSpaceChar c"
      using Nil.prems by simp_all
    have "filter (\<lambda>t. t \<noteq> []) (splitSpaces [] (sp' @ [])) = filter (\<lambda>t. t \<noteq> []) (splitSpaces [] [])"
      using r by (rule splitSpaces_leading)
    then have "filter (\<lambda>t. t \<noteq> []) (splitSpaces [] sp') = []"
      by simp
    then show ?thesis
      using splitSpaces_space[of "\<lambda>t. t" c cur sp'] c Cons by simp
  qed
next
  case (Cons c s)
  show ?case
  proof (cases "isSpaceChar c")
    case True
    then show ?thesis
      using splitSpaces_space[of "\<lambda>t. t" c cur "s @ sp"] splitSpaces_space[of "\<lambda>t. t" c cur s]
        Cons.IH[OF Cons.prems, of "[]"]
      by simp
  next
    case False
    then show ?thesis
      using Cons.IH[OF Cons.prems, of "cur @ [c]"] by simp
  qed
qed

lemma ranked_surrounding_space:
  assumes "\<forall>c\<in>set sp1. isSpaceChar c" "\<forall>c\<in>set sp2. isSpaceChar c"
  shows "ranked (sp1 @ t @ sp2) = ranked t"
proof (rule ranked_nonempty)
  have "wordArray (sp1 @ t @ sp2) = splitSpaces [] (sp1 @ (cleanText t @ sp2))"
    using assms by (simp add: wordArray_def cleanText_append cleanText_spaces)
  then show "filter (\<lambda>t. t \<noteq> []) (wordArray (sp1 @ t @ sp2)) =
             filter (\<lambda>t. t \<noteq> []) (wordArray t)"
    using splitSpaces_leading[OF assms(1), of "cleanText t @ sp2"]
      splitSpaces_trailing[OF assms(2), of "[]" "cleanText t"]
    by (simp add: wordArray_def)
qed

lemma ranked_case:
  assumes "list_all2 sameLetter a b"
  shows "ranked a = ranked b"
proof -
  have "toLowerCase a = toLowerCase b"
    using assms by (simp add: toLowerCase_eq_iff)
  then show ?thesis
    by (simp add: ranked_def wordArray_def cleanText_def)
qed

section \<open>The words of the cloud\<close>

text \<open>
  Claim C5. The text is put in lower case, stripped of every character that is neither a
  word character nor white space, and split at white space: no piece holds white space or
  a character that is not a word character, and the pieces together are the stripped text
  without its white space. Every word of the result is one of the pieces, is longer than
  three characters and is no stop word, and its value counts the pieces equal to it (as a
  number, or for the word \<^verbatim>\<open>constructor\<close> as the string described with
  \<open>countValue\<close>). A piece of at most three characters and a stop word are not in the
  result, so they add to no count.
\<close>

theorem extraction_filtering:
  "(\<forall>t\<in>set (wordArray text). \<forall>c\<in>set t. isWordChar c \<and> \<not> isSpaceChar c) \<and>
   concat (wordArray text) = filter (\<lambda>c. \<not> isSpaceChar c) (cleanText text) \<and>
   (\<forall>(w, v)\<in>set (words text).
      w \<in> set (wordArray text) \<and> length w > 3 \<and> w \<notin> set stopWords \<and>
      v = (if w = ''constructor'' then ObjectSourceOnes (count_list (wordArray text) w)
           else Number (count_list (wordArray text) w))) \<and>
   (\<forall>w. length w \<le> 3 \<or> w \<in> set stopWords \<longrightarrow> w \<notin> fst ` set (words text))"
proof (intro conjI)
  show "\<forall>t\<in>set (wordArray text). \<forall>c\<in>set t. isWordChar c \<and> \<not> isSpaceChar c"
    using wordArray_chars by blast
  show "concat (wordArray text) = filter (\<lambda>c. \<not> isSpaceChar c) (cleanText text)"
    by (simp add: wordArray_def concat_splitSpaces)
  show "\<forall>(w, v)\<in>set (words text).
      w \<in> set (wordArray text) \<and> length w > 3 \<and> w \<notin> set stopWords \<and>
      v = (if w = ''constructor'' then ObjectSourceOnes (count_list (wordArray text) w)
           else Number (count_list (wordArray text) w))"
    using words_mem[of _ _ "text"] by (auto simp: keepWord_def countOf_def)
  show "\<forall>w. length w \<le> 3 \<or> w \<in> set stopWords \<longrightarrow> w \<notin> fst ` set (words text)"
    using words_mem[of _ _ "text"] by (fastforce simp: keepWord_def)
qed

text \<open>The theorem at a sentence with stop words, short words and punctuation.\<close>

theorem extraction_filtering_witness:
  "words ''The cat and the Tiger; with tiger - from TIGERS, lion!'' =
     [(''tiger'', Number 2), (''tigers'', Number 1), (''lion'', Number 1)] \<and>
   wordArray ''The cat and the Tiger; with tiger - from TIGERS, lion!'' =
     [''the'', ''cat'', ''and'', ''the'', ''tiger'', ''with'', ''tiger'', ''from'', ''tigers'',
      ''lion''] \<and>
   count_list (wordArray ''The cat and the Tiger; with tiger - from TIGERS, lion!'') ''tiger'' = 2"
proof -
  let ?t = "''The cat and the Tiger; with tiger - from TIGERS, lion!''"
  have w: "words ?t = [(''tiger'', Number 2), (''tigers'', Number 1), (''lion'', Number 1)]"
    by code_simp
  have a: "wordArray ?t =
     [''the'', ''cat'', ''and'', ''the'', ''tiger'', ''with'', ''tiger'', ''from'', ''tigers'',
      ''lion'']"
    by code_simp
  have "(''tiger'', Number 2) \<in> set (words ?t)"
    unfolding w by simp
  then have "Number 2 = (if ''tiger'' = ''constructor''
                          then ObjectSourceOnes (count_list (wordArray ?t) ''tiger'')
                          else Number (count_list (wordArray ?t) ''tiger''))"
    using extraction_filtering[of ?t] by blast
  then have "count_list (wordArray ?t) ''tiger'' = 2"
    by simp
  then show ?thesis using w a by blast
qed

section \<open>The ranking of the words\<close>

lemma distinct_keys_ranked: "distinct (map fst (ranked t))"
proof -
  have "mset (ranked t) = mset (countWords (wordArray t))"
    by (simp add: ranked_def mset_sortBy mset_entries)
  then have "mset (map fst (ranked t)) = mset (map fst (countWords (wordArray t)))"
    by (metis mset_map)
  then show ?thesis
    using countWords_distinct[of "wordArray t"] by (metis mset_eq_imp_distinct_iff)
qed

lemma distinct_keys_words: "distinct (map fst (words t))"
  using distinct_keys_ranked[of t] by (simp add: words_def take_map[symmetric] distinct_take)

lemma countWords_mset:
  assumes "mset ws1 = mset ws2"
  shows "mset (countWords ws1) = mset (countWords ws2)"
proof -
  have s: "set ws1 = set ws2"
    using assms by (metis set_mset_mset)
  have c: "count_list ws1 w = count_list ws2 w" for w
    using assms by (metis count_mset)
  have "set (countWords ws1) = set (countWords ws2)"
    using s c by (auto simp: countWords_mem)
  moreover have "distinct (countWords ws1)" "distinct (countWords ws2)"
    using countWords_distinct distinct_map by blast+
  ultimately show ?thesis
    by (simp add: set_eq_iff_mset_eq_distinct)
qed

lemma ranked_mset:
  assumes "mset (wordArray t1) = mset (wordArray t2)"
  shows "mset (ranked t1) = mset (ranked t2)"
  using countWords_mset[OF assms] by (simp add: ranked_def mset_sortBy mset_entries)

lemma ranked_sort_key:
  assumes "''constructor'' \<notin> set (wordArray t)"
  shows "ranked t =
     sort_key (\<lambda>e. case snd e of Number n \<Rightarrow> - int n | ObjectSourceOnes k \<Rightarrow> 0)
       (entries (countWords (wordArray t))) \<and>
     (\<forall>e\<in>set (countWords (wordArray t)). \<exists>n. snd e = Number n)"
proof -
  let ?g = "\<lambda>e. case snd e of Number n \<Rightarrow> - int n | ObjectSourceOnes k \<Rightarrow> 0"
  have n: "\<forall>e\<in>set (countWords (wordArray t)). \<exists>n. snd e = Number n"
  proof
    fix e assume "e \<in> set (countWords (wordArray t))"
    then have "(fst e, snd e) \<in> set (countWords (wordArray t))" by simp
    then have "fst e \<in> set (wordArray t)" "snd e = countOf (fst e) (count_list (wordArray t) (fst e))"
      unfolding countWords_mem by simp_all
    then show "\<exists>n. snd e = Number n"
      using assms by (auto simp: countOf_def)
  qed
  have "\<forall>x\<in>set (entries (countWords (wordArray t))).
        \<forall>y\<in>set (entries (countWords (wordArray t))). byValueDesc x y = Some (?g x - ?g y)"
  proof (intro ballI)
    fix x y
    assume "x \<in> set (entries (countWords (wordArray t)))"
      and "y \<in> set (entries (countWords (wordArray t)))"
    then obtain a b where "snd x = Number a" "snd y = Number b"
      using n unfolding set_entries by blast
    then show "byValueDesc x y = Some (?g x - ?g y)"
      by (simp add: byValueDesc_def)
  qed
  then have "sortBy byValueDesc (entries (countWords (wordArray t))) =
             sort_key ?g (entries (countWords (wordArray t)))"
    by (rule sortBy_sort_key)
  then show ?thesis using n by (simp add: ranked_def)
qed

lemma ranked_descending:
  assumes "''constructor'' \<notin> set (wordArray t)"
  shows "sorted_wrt (\<lambda>a b. \<exists>x y. snd a = Number x \<and> snd b = Number y \<and> y \<le> x) (ranked t)"
proof -
  let ?g = "\<lambda>e. case snd e of Number n \<Rightarrow> - int n | ObjectSourceOnes k \<Rightarrow> 0"
  let ?xs = "entries (countWords (wordArray t))"
  note r = ranked_sort_key[OF assms]
  have "sorted (map ?g (sort_key ?g ?xs))"
    by (rule sorted_sort_key)
  then have s: "sorted_wrt (\<lambda>a b. ?g a \<le> ?g b) (ranked t)"
    using r by (simp add: sorted_map)
  show ?thesis
  proof (rule sorted_wrt_mono_rel[OF _ s])
    fix a b
    assume "a \<in> set (ranked t)" "b \<in> set (ranked t)" and le: "?g a \<le> ?g b"
    then obtain x y where "snd a = Number x" "snd b = Number y"
      using r unfolding set_ranked by blast
    then show "\<exists>x y. snd a = Number x \<and> snd b = Number y \<and> y \<le> x"
      using le by simp
  qed
qed

lemma ranked_stable:
  assumes "''constructor'' \<notin> set (wordArray t)"
  shows "filter (\<lambda>e. snd e = Number n) (ranked t) =
         filter (\<lambda>e. snd e = Number n) (entries (countWords (wordArray t)))"
proof -
  let ?g = "\<lambda>e. case snd e of Number n \<Rightarrow> - int n | ObjectSourceOnes k \<Rightarrow> 0"
  let ?xs = "entries (countWords (wordArray t))"
  note r = ranked_sort_key[OF assms]
  have k: "e \<in> set ?xs \<Longrightarrow> (?g e = - int n) = (snd e = Number n)" for e
    using r unfolding set_entries by fastforce
  have "filter (\<lambda>e. ?g e = - int n) (sort_key ?g ?xs) = filter (\<lambda>e. ?g e = - int n) ?xs"
    by (rule sort_key_stable)
  moreover have "filter (\<lambda>e. ?g e = - int n) (sort_key ?g ?xs) =
                 filter (\<lambda>e. snd e = Number n) (sort_key ?g ?xs)"
    by (rule filter_cong) (simp_all add: k)
  moreover have "filter (\<lambda>e. ?g e = - int n) ?xs = filter (\<lambda>e. snd e = Number n) ?xs"
    by (rule filter_cong) (simp_all add: k)
  ultimately show ?thesis using r by simp
qed

text \<open>
  Claim C2 as the specification states it fails: the two texts below have the same pieces
  in another order, both words occur once, and each text lists first the word it holds
  first, so the two rankings differ and the first one is not alphabetical.
\<close>

theorem ranking_order_counterexample:
  "mset (wordArray ''beta alpha'') = mset (wordArray ''alpha beta'') \<and>
   words ''beta alpha'' = [(''beta'', Number 1), (''alpha'', Number 1)] \<and>
   words ''alpha beta'' = [(''alpha'', Number 1), (''beta'', Number 1)] \<and>
   words ''beta alpha'' \<noteq> words ''alpha beta''"
proof -
  have a: "wordArray ''beta alpha'' = [''beta'', ''alpha'']" by code_simp
  have b: "wordArray ''alpha beta'' = [''alpha'', ''beta'']" by code_simp
  have c: "words ''beta alpha'' = [(''beta'', Number 1), (''alpha'', Number 1)]" by code_simp
  have d: "words ''alpha beta'' = [(''alpha'', Number 1), (''beta'', Number 1)]" by code_simp
  show ?thesis unfolding a b c d by simp
qed

text \<open>
  Claim C2, amended. Two texts with the same multiset of pieces give rankings with the same
  words and the same counts, as multisets; so do their first fifty places when there are at
  most fifty words. For a text without the word \<^verbatim>\<open>constructor\<close>, whose count
  is not a number, the ranking is in descending order of count, and the words of equal
  count stand in the order of \<^verbatim>\<open>Object.entries\<close> of the table: numerals
  first, then the other words by first occurrence in the text.
\<close>

theorem ranking_order:
  "(mset (wordArray t1) = mset (wordArray t2) \<longrightarrow>
      mset (ranked t1) = mset (ranked t2) \<and>
      (length (ranked t1) \<le> 50 \<longrightarrow> mset (words t1) = mset (words t2))) \<and>
   (''constructor'' \<notin> set (wordArray t1) \<longrightarrow>
      sorted_wrt (\<lambda>a b. \<exists>x y. snd a = Number x \<and> snd b = Number y \<and> y \<le> x) (words t1) \<and>
      (\<forall>n. filter (\<lambda>e. snd e = Number n) (ranked t1) =
           filter (\<lambda>e. snd e = Number n) (entries (countWords (wordArray t1)))))"
proof (intro conjI impI allI)
  assume m: "mset (wordArray t1) = mset (wordArray t2)"
  then show r: "mset (ranked t1) = mset (ranked t2)"
    by (rule ranked_mset)
  assume "length (ranked t1) \<le> 50"
  moreover have "length (ranked t1) = length (ranked t2)"
    using r by (metis size_mset)
  ultimately show "mset (words t1) = mset (words t2)"
    using r by (simp add: words_def)
next
  assume c: "''constructor'' \<notin> set (wordArray t1)"
  show "sorted_wrt (\<lambda>a b. \<exists>x y. snd a = Number x \<and> snd b = Number y \<and> y \<le> x) (words t1)"
    unfolding words_def using ranked_descending[OF c] by (rule sorted_wrt_take)
  show "filter (\<lambda>e. snd e = Number n) (ranked t1) =
           filter (\<lambda>e. snd e = Number n) (entries (countWords (wordArray t1)))" for n
    using c by (rule ranked_stable)
qed

text \<open>The theorem at two texts with the same five pieces in different orders.\<close>

theorem ranking_order_witness:
  "mset (wordArray ''zeta 2024 beta zeta alpha'') = mset (wordArray ''alpha zeta beta zeta 2024'') \<and>
   words ''zeta 2024 beta zeta alpha'' =
     [(''zeta'', Number 2), (''2024'', Number 1), (''beta'', Number 1), (''alpha'', Number 1)] \<and>
   words ''alpha zeta beta zeta 2024'' =
     [(''zeta'', Number 2), (''2024'', Number 1), (''alpha'', Number 1), (''beta'', Number 1)] \<and>
   mset [(''zeta'', Number 2), (''2024'', Number 1), (''beta'', Number 1), (''alpha'', Number 1)] =
   mset [(''zeta'', Number 2), (''2024'', Number 1), (''alpha'', Number 1), (''beta'', Number 1)] \<and>
   sorted_wrt (\<lambda>a b. \<exists>x y. snd a = Number x \<and> snd b = Number y \<and> y \<le> x)
     [(''zeta'', Number 2), (''2024'', Number 1), (''beta'', Number 1), (''alpha'', Number 1)]"
proof -
  let ?a = "''zeta 2024 beta zeta alpha''"
  let ?b = "''alpha zeta beta zeta 2024''"
  have a: "wordArray ?a = [''zeta'', ''2024'', ''beta'', ''zeta'', ''alpha'']" by code_simp
  have b: "wordArray ?b = [''alpha'', ''zeta'', ''beta'', ''zeta'', ''2024'']" by code_simp
  have ra: "ranked ?a =
     [(''zeta'', Number 2), (''2024'', Number 1), (''beta'', Number 1), (''alpha'', Number 1)]"
    by code_simp
  have rb: "ranked ?b =
     [(''zeta'', Number 2), (''2024'', Number 1), (''alpha'', Number 1), (''beta'', Number 1)]"
    by code_simp
  have wa: "words ?a = ranked ?a" unfolding words_def ra by simp
  have wb: "words ?b = ranked ?b" unfolding words_def rb by simp
  have m: "mset (wordArray ?a) = mset (wordArray ?b)"
    unfolding a b by simp
  have c: "''constructor'' \<notin> set (wordArray ?a)"
    unfolding a by simp
  have l: "length (ranked ?a) \<le> 50"
    unfolding ra by simp
  have 1: "mset (words ?a) = mset (words ?b)"
    using ranking_order[of ?a ?b] m l by blast
  have 2: "sorted_wrt (\<lambda>a b. \<exists>x y. snd a = Number x \<and> snd b = Number y \<and> y \<le> x) (words ?a)"
    using ranking_order[of ?a ?b] c by blast
  show ?thesis
    using m 1 2 unfolding wa wb ra rb by blast
qed

section \<open>The form of the words\<close>

text \<open>
  Claim C4 as the specification states it fails in its third part: no word is put in the
  singular. A text with a word and its plural gets two words with a count of one each, not
  one word with the count two.
\<close>

theorem concept_normalization_counterexample:
  "words ''item items'' = [(''item'', Number 1), (''items'', Number 1)] \<and>
   words ''item items'' \<noteq> [(''item'', Number 2)]"
proof -
  have "words ''item items'' = [(''item'', Number 1), (''items'', Number 1)]"
    by code_simp
  then show ?thesis by simp
qed

text \<open>
  Claim C4, amended. Every word of the result is in lower case and is made of word
  characters only, so it holds no white space and no punctuation; no word is listed twice, and the count of a word is the number of the pieces of the
  original text, split at white space, that become this word when they are put in lower
  case and stripped: the variants of a word in case, punctuation and surrounding white
  space are counted together. Texts that differ only in case, or only in white space
  around them, give the same result. Plural forms stay words of their own.
\<close>

theorem concept_normalization:
  "(\<forall>(w, v)\<in>set (words text).
      toLowerCase w = w \<and> (\<forall>c\<in>set w. isWordChar c \<and> \<not> isSpaceChar c) \<and>
      v = countOf w (length (filter (\<lambda>p. cleanText p = w) (splitSpaces [] text)))) \<and>
   distinct (map fst (words text)) \<and>
   (list_all2 sameLetter text text' \<longrightarrow> words text' = words text) \<and>
   ((\<forall>c\<in>set sp1. isSpaceChar c) \<and> (\<forall>c\<in>set sp2. isSpaceChar c) \<longrightarrow>
      words (sp1 @ text @ sp2) = words text)"
proof (intro conjI impI)
  show "\<forall>(w, v)\<in>set (words text).
      toLowerCase w = w \<and> (\<forall>c\<in>set w. isWordChar c \<and> \<not> isSpaceChar c) \<and>
      v = countOf w (length (filter (\<lambda>p. cleanText p = w) (splitSpaces [] text)))"
  proof (clarify, intro conjI)
    fix w v
    assume "(w, v) \<in> set (words text)"
    then have k: "keepWord w" and m: "w \<in> set (wordArray text)"
      and v: "v = countOf w (count_list (wordArray text) w)"
      using words_mem by blast+
    show "toLowerCase w = w"
      using m wordArray_chars by (intro toLowerCase_id) blast
    show "\<forall>c\<in>set w. isWordChar c \<and> \<not> isSpaceChar c"
      using m wordArray_chars by blast
    have "w \<noteq> []" using k by (auto simp: keepWord_def)
    then show "v = countOf w (length (filter (\<lambda>p. cleanText p = w) (splitSpaces [] text)))"
      using v by (simp add: count_wordArray)
  qed
  show "distinct (map fst (words text))"
    by (rule distinct_keys_words)
next
  assume "list_all2 sameLetter text text'"
  then have "ranked text = ranked text'" by (rule ranked_case)
  then show "words text' = words text" by (simp add: words_def)
next
  assume "(\<forall>c\<in>set sp1. isSpaceChar c) \<and> (\<forall>c\<in>set sp2. isSpaceChar c)"
  then have "ranked (sp1 @ text @ sp2) = ranked text"
    using ranked_surrounding_space by blast
  then show "words (sp1 @ text @ sp2) = words text" by (simp add: words_def)
qed

text \<open>The theorem at three variants of one word.\<close>

theorem concept_normalization_witness:
  "list_all2 sameLetter ''Tiger, tiger!  TIGER'' ''tiger, TIGER!  tiger'' \<and>
   words ''Tiger, tiger!  TIGER'' = [(''tiger'', Number 3)] \<and>
   words ''tiger, TIGER!  tiger'' = [(''tiger'', Number 3)] \<and>
   words (''  '' @ ''Tiger, tiger!  TIGER'' @ '' '') = [(''tiger'', Number 3)] \<and>
   length (filter (\<lambda>p. cleanText p = ''tiger'') (splitSpaces [] ''Tiger, tiger!  TIGER'')) = 3"
proof -
  let ?t = "''Tiger, tiger!  TIGER''"
  let ?u = "''tiger, TIGER!  tiger''"
  have w: "words ?t = [(''tiger'', Number 3)]" by code_simp
  have s: "list_all2 sameLetter ?t ?u" by code_simp
  have sp: "(\<forall>c\<in>set ''  ''. isSpaceChar c) \<and> (\<forall>c\<in>set '' ''. isSpaceChar c)"
    by code_simp
  note cn = concept_normalization[of ?t ?u "''  ''" "'' ''"]
  have 1: "words ?u = words ?t"
    by (rule cn[THEN conjunct2, THEN conjunct2, THEN conjunct1, rule_format, OF s])
  have 2: "words (''  '' @ ?t @ '' '') = words ?t"
    by (rule cn[THEN conjunct2, THEN conjunct2, THEN conjunct2, rule_format, OF sp])
  have m: "(''tiger'', Number 3) \<in> set (words ?t)"
    by (simp only: w list.set insertI1)
  have "case (''tiger'', Number 3) of (w, v) \<Rightarrow>
      toLowerCase w = w \<and> (\<forall>c\<in>set w. isWordChar c \<and> \<not> isSpaceChar c) \<and>
      v = countOf w (length (filter (\<lambda>p. cleanText p = w) (splitSpaces [] ?t)))"
    by (rule cn[THEN conjunct1, rule_format, OF m])
  then have e: "Number 3 = countOf ''tiger''
               (length (filter (\<lambda>p. cleanText p = ''tiger'') (splitSpaces [] ?t)))"
    by (simp only: prod.case)
  have n3: "Number 3 = countOf ''tiger'' n \<Longrightarrow> n = 3" for n
    by (simp add: countOf_def)
  have 3: "length (filter (\<lambda>p. cleanText p = ''tiger'') (splitSpaces [] ?t)) = 3"
    by (rule n3[OF e])
  show ?thesis
    by (intro conjI) (simp_all only: s w 1 2 3)
qed

section \<open>The daily counts of the histogram\<close>

lemma sum_update:
  "sum_list (map snd (AList.update k (countAt c k + n) c)) = sum_list (map snd c) + n"
proof (induction c)
  case Nil
  then show ?case by (simp add: countAt_def)
next
  case (Cons p c)
  show ?case
  proof (cases "fst p = k")
    case True
    then show ?thesis by (cases p) (simp add: countAt_def)
  next
    case False
    then have "countAt (p # c) k = countAt c k"
      by (cases p) (simp add: countAt_def)
    then show ?thesis using False Cons by (cases p) simp
  qed
qed

lemma countAt_update:
  "countAt (AList.update k v c) d = (if d = k then v else countAt c d)"
  by (simp add: countAt_def update_conv')

lemma countDay_valid:
  assumes "nd (created_at s) = Some t"
  shows "countDay nd dayOf (c, Some lo, Some hi) s =
     Inr (AList.update (dayOf t) (countAt c (dayOf t) + 1) c, Some (min t lo), Some (max hi t))"
  using assms by (auto simp: countDay_def countAt_def Let_def dateLt_def min_def max_def)

lemma countDays_valid:
  assumes "\<forall>s\<in>set xs. nd (created_at s) \<noteq> None"
  shows "\<exists>c' lo' hi'. countDays nd dayOf (c, Some lo, Some hi) xs = Inr (c', Some lo', Some hi') \<and>
     (distinct (map fst c) \<longrightarrow> distinct (map fst c')) \<and>
     (\<forall>d. map_of c' d =
        (if \<exists>s\<in>set xs. dayOfShot nd dayOf s = Some d
         then Some (countAt c d + length (filter (\<lambda>s. dayOfShot nd dayOf s = Some d) xs))
         else map_of c d)) \<and>
     sum_list (map snd c') = sum_list (map snd c) + length xs \<and>
     lo' \<le> lo \<and> hi \<le> hi' \<and>
     (\<forall>s\<in>set xs. \<forall>t. nd (created_at s) = Some t \<longrightarrow> lo' \<le> t \<and> t \<le> hi') \<and>
     (lo' = lo \<or> (\<exists>s\<in>set xs. nd (created_at s) = Some lo')) \<and>
     (hi' = hi \<or> (\<exists>s\<in>set xs. nd (created_at s) = Some hi'))"
  using assms
proof (induction xs arbitrary: c lo hi)
  case Nil
  then show ?case by simp
next
  case (Cons s xs)
  then obtain t where t: "nd (created_at s) = Some t" by auto
  let ?c1 = "AList.update (dayOf t) (countAt c (dayOf t) + 1) c"
  have step: "countDays nd dayOf (c, Some lo, Some hi) (s # xs) =
              countDays nd dayOf (?c1, Some (min t lo), Some (max hi t)) xs"
    using t by (simp add: countDay_valid)
  have v: "\<forall>s\<in>set xs. nd (created_at s) \<noteq> None" using Cons.prems by simp
  from Cons.IH[OF v, of ?c1 "min t lo" "max hi t"]
  obtain c' lo' hi' where
    r: "countDays nd dayOf (?c1, Some (min t lo), Some (max hi t)) xs = Inr (c', Some lo', Some hi')"
    and d: "distinct (map fst ?c1) \<longrightarrow> distinct (map fst c')"
    and m: "\<And>d. map_of c' d =
        (if \<exists>s\<in>set xs. dayOfShot nd dayOf s = Some d
         then Some (countAt ?c1 d + length (filter (\<lambda>s. dayOfShot nd dayOf s = Some d) xs))
         else map_of ?c1 d)"
    and sm: "sum_list (map snd c') = sum_list (map snd ?c1) + length xs"
    and lo: "lo' \<le> min t lo" and hi: "max hi t \<le> hi'"
    and b: "\<forall>s\<in>set xs. \<forall>t. nd (created_at s) = Some t \<longrightarrow> lo' \<le> t \<and> t \<le> hi'"
    and al: "lo' = min t lo \<or> (\<exists>s\<in>set xs. nd (created_at s) = Some lo')"
    and ah: "hi' = max hi t \<or> (\<exists>s\<in>set xs. nd (created_at s) = Some hi')"
    by blast
  have ds: "dayOfShot nd dayOf s = Some (dayOf t)"
    using t by (simp add: dayOfShot_def)
  have 1: "distinct (map fst c) \<longrightarrow> distinct (map fst c')"
    using d by (simp add: distinct_update)
  have 2: "map_of c' d =
        (if \<exists>s\<in>set (s # xs). dayOfShot nd dayOf s = Some d
         then Some (countAt c d + length (filter (\<lambda>s. dayOfShot nd dayOf s = Some d) (s # xs)))
         else map_of c d)" for d
  proof (cases "d = dayOf t")
    case True
    show ?thesis
    proof (cases "\<exists>s\<in>set xs. dayOfShot nd dayOf s = Some d")
      case e: True
      then show ?thesis using m[of d] True ds by (simp add: countAt_update)
    next
      case e: False
      then have "filter (\<lambda>s. dayOfShot nd dayOf s = Some d) xs = []"
        by (simp add: filter_empty_conv)
      then show ?thesis using m[of d] True ds e by (simp add: update_conv')
    qed
  next
    case False
    then have "dayOfShot nd dayOf s \<noteq> Some d" using ds by simp
    then show ?thesis using m[of d] False by (simp add: countAt_update update_conv')
  qed
  have 3: "sum_list (map snd c') = sum_list (map snd c) + length (s # xs)"
    using sm sum_update[of "dayOf t" c 1] by simp
  have 4: "lo' \<le> lo \<and> hi \<le> hi'" using lo hi by simp
  have 5: "\<forall>s\<in>set (s # xs). \<forall>t. nd (created_at s) = Some t \<longrightarrow> lo' \<le> t \<and> t \<le> hi'"
    using b t lo hi by auto
  have 6: "lo' = lo \<or> (\<exists>s\<in>set (s # xs). nd (created_at s) = Some lo')"
    using al t by (auto simp: min_def split: if_splits)
  have 7: "hi' = hi \<or> (\<exists>s\<in>set (s # xs). nd (created_at s) = Some hi')"
    using ah t by (auto simp: max_def split: if_splits)
  show ?case
    unfolding step r using 1 2 3 4 5 6 7 by blast
qed

lemma countDays_invalid:
  assumes "\<exists>s\<in>set xs. nd (created_at s) = None"
  shows "countDays nd dayOf acc xs = Inl RangeError"
  using assms
proof (induction xs arbitrary: acc)
  case Nil
  then show ?case by simp
next
  case (Cons s xs)
  show ?case
  proof (cases "nd (created_at s)")
    case None
    then show ?thesis by (cases acc) (simp add: countDay_def)
  next
    case (Some t)
    then have "\<exists>s\<in>set xs. nd (created_at s) = None" using Cons.prems by auto
    then show ?thesis using Cons.IH
      by (cases "countDay nd dayOf acc s") (auto intro: error.exhaust)
  qed
qed

lemma fillDay_map_of:
  "map_of (fillDay c k) d = (if d = k then Some (countAt c k) else map_of c d)"
  by (auto simp: fillDay_def countAt_def update_conv' split: option.splits)

lemma fillDay_distinct: "distinct (map fst c) \<Longrightarrow> distinct (map fst (fillDay c k))"
  by (simp add: fillDay_def distinct_update)

lemma fillDay_sum: "sum_list (map snd (fillDay c k)) = sum_list (map snd c)"
proof (cases "case map_of c k of Some n \<Rightarrow> n = 0 | None \<Rightarrow> True")
  case True
  then have "countAt c k = 0" by (auto simp: countAt_def split: option.splits)
  then have "AList.update k 0 c = AList.update k (countAt c k + 0) c" by simp
  then show ?thesis using True sum_update[of k c 0] by (simp add: fillDay_def)
next
  case False
  then show ?thesis by (simp add: fillDay_def)
qed

lemma fill_days:
  "distinct (map fst c) \<longrightarrow> distinct (map fst (foldl fillDay c ds))"
  "map_of (foldl fillDay c ds) d = (if d \<in> set ds then Some (countAt c d) else map_of c d)"
  "sum_list (map snd (foldl fillDay c ds)) = sum_list (map snd c)"
proof (induction ds arbitrary: c)
  case Nil
  {
    case 1 show ?case by simp
  next
    case 2 show ?case by simp
  next
    case 3 show ?case by simp
  }
next
  case (Cons k ds)
  {
    case 1 show ?case using Cons.IH(1)[of "fillDay c k"] by (simp add: fillDay_distinct)
  next
    case 2
    have "countAt (fillDay c k) d = countAt c d"
      by (simp add: countAt_def fillDay_map_of)
    then show ?case using Cons.IH(2)[of "fillDay c k"] by (auto simp: fillDay_map_of)
  next
    case 3 show ?case using Cons.IH(3)[of "fillDay c k"] by (simp add: fillDay_sum)
  }
qed

lemma maxValue_too_long: "length c > k \<Longrightarrow> maxValue k c = Inl RangeError"
  by (simp add: maxValue_def)

lemma maxValue_bound:
  assumes "maxValue k c = Inr m"
  shows "\<forall>(d, n)\<in>set c. n \<le> m"
proof (cases "map snd c")
  case Nil
  then show ?thesis by simp
next
  case (Cons v vs)
  have "fold max vs v = Max (set (v # vs))"
    by (rule Max.set_eq_fold[symmetric])
  then have m: "m = Max (set (map snd c))"
    using assms Cons by (simp add: maxValue_def Let_def split: if_splits)
  have "n \<le> m" if "n \<in> set (map snd c)" for n
    unfolding m using that by (intro Max_ge) simp_all
  then show ?thesis by force
qed

lemma maxValue_max:
  assumes "c \<noteq> []" "length c \<le> k"
  shows "\<exists>m. maxValue k c = Inr m \<and> (\<exists>d. (d, m) \<in> set c) \<and> (\<forall>(d, n)\<in>set c. n \<le> m)"
proof -
  obtain v vs where vs: "map snd c = v # vs" using assms(1) by (cases c) auto
  have f: "fold max vs v = Max (set (v # vs))"
    by (rule Max.set_eq_fold[symmetric])
  have l: "\<not> length (map snd c) > k" using assms(2) by simp
  have e: "maxValue k c = Inr (fold max vs v)"
    unfolding maxValue_def Let_def using l vs by simp
  have m: "fold max vs v = Max (set (map snd c))"
    using f vs by simp
  have ne: "set (map snd c) \<noteq> {}" using assms(1) by simp
  have "fold max vs v \<in> set (map snd c)"
    unfolding m using ne by (intro Max_in) simp_all
  then have "\<exists>d. (d, fold max vs v) \<in> set c" by force
  then show ?thesis using e maxValue_bound[OF e] by blast
qed

lemma timeHistogram_valid:
  assumes ne: "shots \<noteq> []" and v: "\<forall>s\<in>set shots. nd (created_at s) \<noteq> None"
  shows "\<exists>c lo hi. timeHistogram nd dayOf k shots =
           (case maxValue k (foldl fillDay c (eachDayOfInterval (dayOf lo) (dayOf hi))) of
              Inl e \<Rightarrow> Inl e
            | Inr m \<Rightarrow>
                Inr \<lparr>dailyCounts = foldl fillDay c (eachDayOfInterval (dayOf lo) (dayOf hi)),
                     dateRange = Some (Some lo, Some hi),
                     maxCount = m\<rparr>) \<and>
     distinct (map fst c) \<and>
     (\<forall>d. map_of c d =
        (if \<exists>s\<in>set shots. dayOfShot nd dayOf s = Some d
         then Some (length (filter (\<lambda>s. dayOfShot nd dayOf s = Some d) shots))
         else None)) \<and>
     sum_list (map snd c) = length shots \<and>
     (\<forall>s\<in>set shots. \<forall>t. nd (created_at s) = Some t \<longrightarrow> lo \<le> t \<and> t \<le> hi) \<and>
     (\<exists>s\<in>set shots. nd (created_at s) = Some lo) \<and>
     (\<exists>s\<in>set shots. nd (created_at s) = Some hi)"
proof -
  have h: "hd shots \<in> set shots" using ne by simp
  then obtain t0 where t0: "nd (created_at (hd shots)) = Some t0" using v by auto
  from countDays_valid[OF v, of dayOf "[]" t0 t0]
  obtain c lo hi where
    r: "countDays nd dayOf ([], Some t0, Some t0) shots = Inr (c, Some lo, Some hi)"
    and d: "distinct (map fst c)"
    and m: "\<And>d. map_of c d =
        (if \<exists>s\<in>set shots. dayOfShot nd dayOf s = Some d
         then Some (countAt [] d + length (filter (\<lambda>s. dayOfShot nd dayOf s = Some d) shots))
         else map_of [] d)"
    and sm: "sum_list (map snd c) = sum_list (map snd []) + length shots"
    and b: "\<forall>s\<in>set shots. \<forall>t. nd (created_at s) = Some t \<longrightarrow> lo \<le> t \<and> t \<le> hi"
    and al: "lo = t0 \<or> (\<exists>s\<in>set shots. nd (created_at s) = Some lo)"
    and ah: "hi = t0 \<or> (\<exists>s\<in>set shots. nd (created_at s) = Some hi)"
    by auto
  have e: "timeHistogram nd dayOf k shots =
           (case maxValue k (foldl fillDay c (eachDayOfInterval (dayOf lo) (dayOf hi))) of
              Inl e \<Rightarrow> Inl e
            | Inr m \<Rightarrow>
                Inr \<lparr>dailyCounts = foldl fillDay c (eachDayOfInterval (dayOf lo) (dayOf hi)),
                     dateRange = Some (Some lo, Some hi),
                     maxCount = m\<rparr>)"
    using ne by (simp add: timeHistogram_def t0 r Let_def)
  have m': "\<forall>d. map_of c d =
        (if \<exists>s\<in>set shots. dayOfShot nd dayOf s = Some d
         then Some (length (filter (\<lambda>s. dayOfShot nd dayOf s = Some d) shots))
         else None)"
    using m by (simp add: countAt_def)
  have l: "\<exists>s\<in>set shots. nd (created_at s) = Some lo" using al h t0 by auto
  have u: "\<exists>s\<in>set shots. nd (created_at s) = Some hi" using ah h t0 by auto
  have sm': "sum_list (map snd c) = length shots" using sm by simp
  show ?thesis using e d m' sm' b l u by blast
qed

lemma timeHistogram_bound:
  assumes "timeHistogram nd dayOf k shots = Inr h"
  shows "\<forall>(d, n)\<in>set (dailyCounts h). n \<le> maxCount h"
proof (cases "shots = []")
  case True
  then have "h = \<lparr>dailyCounts = [], dateRange = None, maxCount = 0\<rparr>"
    using assms by (simp add: timeHistogram_def)
  then show ?thesis by simp
next
  case False
  let ?first = "nd (created_at (hd shots))"
  from assms False obtain c mn mx where
    r: "countDays nd dayOf ([], ?first, ?first) shots = Inr (c, mn, mx)"
    by (auto simp: timeHistogram_def Let_def split: sum.splits)
  from assms False r obtain lo hi where mm: "mn = Some lo" "mx = Some hi"
    by (auto simp: timeHistogram_def Let_def split: option.splits)
  let ?C = "foldl fillDay c (eachDayOfInterval (dayOf lo) (dayOf hi))"
  from assms False r mm obtain m where
    mv: "maxValue k ?C = Inr m" and h: "h = \<lparr>dailyCounts = ?C, dateRange = Some (mn, mx), maxCount = m\<rparr>"
    by (auto simp: timeHistogram_def Let_def split: sum.splits)
  show ?thesis unfolding h using maxValue_bound[OF mv] by simp
qed

lemma mono_utcDay: "mono utcDay"
  by (rule monoI) (simp add: utcDay_def zdiv_mono1)

text \<open>
  Claim C9 as the specification states it, for every list of screenshots that is not empty,
  fails on a list with a creation time that is not a date: formatting the day of that
  screenshot throws, and no table of counts is computed.
\<close>

theorem histogram_invalid_date_counterexample:
  "timeHistogram exampleDate utcDay 65536
     [hist ''1'' ''2024-01-01'', hist ''2'' ''not a date''] = Inl RangeError"
  by (simp add: timeHistogram_def countDay_def hist_def exampleDate_def Let_def dateLt_def)

text \<open>
  Claim C9, amended. Take a list of screenshots that is not empty and whose creation times
  are all valid dates, and a calendar in which a later time never lies on an earlier day.
  When the days of any two screenshots are fewer days apart than the number of arguments
  the engine accepts in one call, the histogram is computed. Its table has one entry for
  every day from the day of the earliest screenshot to the day of the latest one (the days
  between the days of two screenshots) and no other entry; the entry of a day is the
  number of screenshots of that day, which is 0 for a day without screenshots; the counts
  add up to the number of screenshots; and the maximum count is one of the counts and no
  count is greater. When two screenshots are at least that many days apart, taking the
  maximum throws and no histogram is computed.
\<close>

theorem histogram_aggregation:
  assumes ne: "shots \<noteq> []" and v: "\<forall>s\<in>set shots. nd (created_at s) \<noteq> None"
    and mono: "mono dayOf"
  shows "((\<forall>a\<in>set shots. \<forall>b\<in>set shots. \<forall>x y.
            dayOfShot nd dayOf a = Some x \<and> dayOfShot nd dayOf b = Some y \<longrightarrow>
            y - x < int maxArguments) \<longrightarrow>
          (\<exists>h. timeHistogram nd dayOf maxArguments shots = Inr h \<and>
             distinct (map fst (dailyCounts h)) \<and>
             (\<forall>d. map_of (dailyCounts h) d =
                (if \<exists>a\<in>set shots. \<exists>b\<in>set shots. \<exists>x y.
                      dayOfShot nd dayOf a = Some x \<and> dayOfShot nd dayOf b = Some y \<and>
                      x \<le> d \<and> d \<le> y
                 then Some (length (filter (\<lambda>s. dayOfShot nd dayOf s = Some d) shots))
                 else None)) \<and>
             sum_list (map snd (dailyCounts h)) = length shots \<and>
             (\<exists>d. (d, maxCount h) \<in> set (dailyCounts h)) \<and>
             (\<forall>(d, n)\<in>set (dailyCounts h). n \<le> maxCount h))) \<and>
         ((\<exists>a\<in>set shots. \<exists>b\<in>set shots. \<exists>x y.
            dayOfShot nd dayOf a = Some x \<and> dayOfShot nd dayOf b = Some y \<and>
            int maxArguments \<le> y - x) \<longrightarrow>
          timeHistogram nd dayOf maxArguments shots = Inl RangeError)"
proof -
  from timeHistogram_valid[OF ne v, of dayOf maxArguments]
  obtain c lo hi where
    e: "timeHistogram nd dayOf maxArguments shots =
           (case maxValue maxArguments
                   (foldl fillDay c (eachDayOfInterval (dayOf lo) (dayOf hi))) of
              Inl e \<Rightarrow> Inl e
            | Inr m \<Rightarrow>
                Inr \<lparr>dailyCounts = foldl fillDay c (eachDayOfInterval (dayOf lo) (dayOf hi)),
                     dateRange = Some (Some lo, Some hi),
                     maxCount = m\<rparr>)"
    and d: "distinct (map fst c)"
    and m: "\<And>d. map_of c d =
        (if \<exists>s\<in>set shots. dayOfShot nd dayOf s = Some d
         then Some (length (filter (\<lambda>s. dayOfShot nd dayOf s = Some d) shots))
         else None)"
    and sm: "sum_list (map snd c) = length shots"
    and b: "\<And>s t. s \<in> set shots \<Longrightarrow> nd (created_at s) = Some t \<Longrightarrow> lo \<le> t \<and> t \<le> hi"
    and l: "\<exists>s\<in>set shots. nd (created_at s) = Some lo"
    and u: "\<exists>s\<in>set shots. nd (created_at s) = Some hi"
    by blast
  let ?C = "foldl fillDay c (eachDayOfInterval (dayOf lo) (dayOf hi))"
  let ?n = "\<lambda>d. length (filter (\<lambda>s. dayOfShot nd dayOf s = Some d) shots)"
  let ?R = "\<lambda>d. \<exists>a\<in>set shots. \<exists>b\<in>set shots. \<exists>x y.
              dayOfShot nd dayOf a = Some x \<and> dayOfShot nd dayOf b = Some y \<and> x \<le> d \<and> d \<le> y"
  have days: "set (eachDayOfInterval (dayOf lo) (dayOf hi)) = {dayOf lo..dayOf hi}"
    by (simp add: eachDayOfInterval_def)
  have cnt: "countAt c d = ?n d" for d
  proof (cases "\<exists>s\<in>set shots. dayOfShot nd dayOf s = Some d")
    case True
    then show ?thesis using m[of d] by (simp add: countAt_def)
  next
    case False
    then have "filter (\<lambda>s. dayOfShot nd dayOf s = Some d) shots = []"
      by (simp add: filter_empty_conv)
    then show ?thesis using m[of d] False by (simp add: countAt_def)
  qed
  have inrange: "dayOf lo \<le> x \<and> x \<le> dayOf hi"
    if "s \<in> set shots" "dayOfShot nd dayOf s = Some x" for s x
  proof -
    from that(2) obtain t where t: "nd (created_at s) = Some t" "x = dayOf t"
      by (auto simp: dayOfShot_def split: option.splits)
    then have "lo \<le> t \<and> t \<le> hi" using b that(1) by blast
    then show ?thesis using mono t(2) by (auto dest: monoD)
  qed
  from l obtain sl where sl: "sl \<in> set shots" "dayOfShot nd dayOf sl = Some (dayOf lo)"
    by (auto simp: dayOfShot_def)
  from u obtain sh where sh: "sh \<in> set shots" "dayOfShot nd dayOf sh = Some (dayOf hi)"
    by (auto simp: dayOfShot_def)
  have R: "?R d \<longleftrightarrow> dayOf lo \<le> d \<and> d \<le> dayOf hi" for d
  proof
    assume "?R d"
    then obtain a b' x y where "a \<in> set shots" "b' \<in> set shots"
      "dayOfShot nd dayOf a = Some x" "dayOfShot nd dayOf b' = Some y" "x \<le> d" "d \<le> y"
      by blast
    then show "dayOf lo \<le> d \<and> d \<le> dayOf hi"
      using inrange[of a x] inrange[of b' y] by linarith
  next
    assume r: "dayOf lo \<le> d \<and> d \<le> dayOf hi"
    show "?R d" using sl sh r by blast
  qed
  have mC: "map_of ?C d = (if ?R d then Some (?n d) else None)" for d
  proof (cases "dayOf lo \<le> d \<and> d \<le> dayOf hi")
    case True
    then have "d \<in> set (eachDayOfInterval (dayOf lo) (dayOf hi))"
      unfolding days by simp
    then have "map_of ?C d = Some (?n d)" by (simp only: fill_days(2) if_True cnt)
    moreover have "?R d" using True R[of d] by blast
    ultimately show ?thesis by (simp only: if_True)
  next
    case False
    then have "\<not> (\<exists>s\<in>set shots. dayOfShot nd dayOf s = Some d)"
      using inrange by blast
    then have "map_of c d = None" using m[of d] by simp
    moreover have "d \<notin> set (eachDayOfInterval (dayOf lo) (dayOf hi))"
      unfolding days using False by simp
    ultimately have "map_of ?C d = None" by (simp only: fill_days(2) if_False)
    moreover have "\<not> ?R d" using False R[of d] by blast
    ultimately show ?thesis by (simp only: if_False)
  qed
  have dC: "distinct (map fst ?C)" using d fill_days(1) by blast
  have sC: "sum_list (map snd ?C) = length shots" using sm by (simp add: fill_days(3))
  have le: "dayOf lo \<le> dayOf hi"
    using l b mono by (auto dest: monoD)
  have keys: "set (map fst ?C) = {dayOf lo..dayOf hi}"
  proof -
    have "set (map fst ?C) = dom (map_of ?C)"
      by (simp add: dom_map_of_conv_image_fst)
    also have "\<dots> = {d. ?R d}"
      by (auto simp: mC dom_def)
    also have "\<dots> = {dayOf lo..dayOf hi}"
      using R by auto
    finally show ?thesis .
  qed
  have "length ?C = card (set (map fst ?C))"
    using distinct_card[OF dC] by simp
  then have len: "int (length ?C) = dayOf hi - dayOf lo + 1"
    unfolding keys using le by simp
  show ?thesis
  proof (intro conjI impI)
    assume span: "\<forall>a\<in>set shots. \<forall>b\<in>set shots. \<forall>x y.
            dayOfShot nd dayOf a = Some x \<and> dayOfShot nd dayOf b = Some y \<longrightarrow>
            y - x < int maxArguments"
    have "dayOf hi - dayOf lo < int maxArguments"
      using span sl sh by blast
    then have "length ?C \<le> maxArguments" using len by linarith
    moreover have "?C \<noteq> []" using len le by auto
    ultimately obtain mx where
      mv: "maxValue maxArguments ?C = Inr mx"
      and mx: "(\<exists>d. (d, mx) \<in> set ?C) \<and> (\<forall>(d, n)\<in>set ?C. n \<le> mx)"
      using maxValue_max[of ?C maxArguments] by blast
    have "timeHistogram nd dayOf maxArguments shots =
            Inr \<lparr>dailyCounts = ?C, dateRange = Some (Some lo, Some hi), maxCount = mx\<rparr>"
      unfolding e mv by simp
    then show "\<exists>h. timeHistogram nd dayOf maxArguments shots = Inr h \<and>
             distinct (map fst (dailyCounts h)) \<and>
             (\<forall>d. map_of (dailyCounts h) d =
                (if ?R d then Some (?n d) else None)) \<and>
             sum_list (map snd (dailyCounts h)) = length shots \<and>
             (\<exists>d. (d, maxCount h) \<in> set (dailyCounts h)) \<and>
             (\<forall>(d, n)\<in>set (dailyCounts h). n \<le> maxCount h)"
      using dC mC sC mx by simp
  next
    assume "\<exists>a\<in>set shots. \<exists>b\<in>set shots. \<exists>x y.
            dayOfShot nd dayOf a = Some x \<and> dayOfShot nd dayOf b = Some y \<and>
            int maxArguments \<le> y - x"
    then obtain a b' x y where ab: "a \<in> set shots" "b' \<in> set shots"
      "dayOfShot nd dayOf a = Some x" "dayOfShot nd dayOf b' = Some y"
      "int maxArguments \<le> y - x"
      by blast
    have "int maxArguments \<le> dayOf hi - dayOf lo"
      using ab inrange[of a x] inrange[of b' y] by linarith
    then have "length ?C > maxArguments" using len by linarith
    then have "maxValue maxArguments ?C = Inl RangeError"
      by (rule maxValue_too_long)
    then show "timeHistogram nd dayOf maxArguments shots = Inl RangeError"
      unfolding e by simp
  qed
qed

text \<open>
  The theorem at three screenshots on two days with an empty day between them: the
  histogram for an engine that accepts 65536 arguments, and the error for a bound of two
  arguments, which the three days of the table exceed.
\<close>

theorem histogram_aggregation_witness:
  "timeHistogram exampleDate utcDay 65536
     [hist ''1'' ''2024-01-03'', hist ''2'' ''2024-01-01'', hist ''3'' ''2024-01-03''] =
     Inr \<lparr>dailyCounts = [(19725, 2), (19723, 1), (19724, 0)],
          dateRange = Some (Some 1704067200000, Some 1704240000000),
          maxCount = 2\<rparr> \<and>
   sum_list (map snd [(19725 :: int, 2 :: nat), (19723, 1), (19724, 0)]) =
     length [hist ''1'' ''2024-01-03'', hist ''2'' ''2024-01-01'', hist ''3'' ''2024-01-03''] \<and>
   timeHistogram exampleDate utcDay 2
     [hist ''1'' ''2024-01-03'', hist ''2'' ''2024-01-01'', hist ''3'' ''2024-01-03''] =
     Inl RangeError"
proof -
  let ?shots = "[hist ''1'' ''2024-01-03'', hist ''2'' ''2024-01-01'', hist ''3'' ''2024-01-03'']"
  let ?h = "\<lparr>dailyCounts = [(19725, 2), (19723, 1), (19724, 0)],
          dateRange = Some (Some 1704067200000, Some 1704240000000),
          maxCount = 2\<rparr>"
  have c: "timeHistogram exampleDate utcDay 65536 ?shots = Inr ?h"
    by (simp add: timeHistogram_def countDay_def hist_def exampleDate_def dateLt_def utcDay_def
        fillDay_def eachDayOfInterval_def maxValue_def Let_def upto_rec_numeral)
  have ne: "?shots \<noteq> []" by simp
  have v: "\<forall>s\<in>set ?shots. exampleDate (created_at s) \<noteq> None"
    by (simp add: hist_def exampleDate_def)
  have d1: "dayOfShot exampleDate utcDay (hist ''1'' ''2024-01-03'') = Some 19725"
    by (simp add: dayOfShot_def hist_def exampleDate_def utcDay_def)
  have d2: "dayOfShot exampleDate utcDay (hist ''2'' ''2024-01-01'') = Some 19723"
    by (simp add: dayOfShot_def hist_def exampleDate_def utcDay_def)
  have d3: "dayOfShot exampleDate utcDay (hist ''3'' ''2024-01-03'') = Some 19725"
    by (simp add: dayOfShot_def hist_def exampleDate_def utcDay_def)
  have span: "\<forall>a\<in>set ?shots. \<forall>b\<in>set ?shots. \<forall>x y.
            dayOfShot exampleDate utcDay a = Some x \<and> dayOfShot exampleDate utcDay b = Some y \<longrightarrow>
            y - x < int 65536"
    by (simp add: d1 d2 d3)
  have long: "\<exists>a\<in>set ?shots. \<exists>b\<in>set ?shots. \<exists>x y.
            dayOfShot exampleDate utcDay a = Some x \<and> dayOfShot exampleDate utcDay b = Some y \<and>
            int 2 \<le> y - x"
    by (simp add: d1 d2 d3)
  from histogram_aggregation[OF ne v mono_utcDay, of 65536, THEN conjunct1, THEN mp, OF span]
  obtain h where e: "timeHistogram exampleDate utcDay 65536 ?shots = Inr h"
    and s: "sum_list (map snd (dailyCounts h)) = length ?shots"
    by blast
  from e c have "h = ?h" by (simp only: sum.inject)
  then have "sum_list (map snd (dailyCounts ?h)) = length ?shots"
    using s by (simp only:)
  then have 1: "sum_list (map snd [(19725 :: int, 2 :: nat), (19723, 1), (19724, 0)]) = length ?shots"
    by (simp only: histogram.simps)
  have 2: "timeHistogram exampleDate utcDay 2 ?shots = Inl RangeError"
    by (rule histogram_aggregation[OF ne v mono_utcDay, of 2, THEN conjunct2, THEN mp, OF long])
  show ?thesis using c 1 2 by (intro conjI)
qed

section \<open>Guarded divisions\<close>

text \<open>
  Without its test of the maximum count the height of a bar would not be a finite number
  when the maximum count is zero, and the rate of zero processed items over zero hours
  would be NaN.
\<close>

lemma unguarded_division:
  "jsTimes (jsDivide a 0) 100 \<noteq> Finite x" "jsDivide 0 0 = NotANumber"
  by (simp_all add: jsDivide_def jsTimes_def)

lemma barHeight_finite:
  assumes "countAt counts d \<le> maxC"
  shows "\<exists>x. barHeight counts maxC d = Finite x \<and> 0 \<le> x \<and> x \<le> 100"
proof (cases "maxC > 0")
  case True
  let ?c = "countAt counts d"
  have "real ?c / real maxC \<le> 1" using assms True by simp
  then have "real ?c / real maxC * 100 \<le> 1 * 100"
    by (rule mult_right_mono) simp
  moreover have "0 \<le> real ?c / real maxC * 100" by simp
  moreover have "barHeight counts maxC d = Finite (real ?c / real maxC * 100)"
    using True by (simp add: barHeight_def countAt_def jsDivide_def jsTimes_def Let_def)
  ultimately show ?thesis by simp
next
  case False
  then show ?thesis by (simp add: barHeight_def)
qed

text \<open>
  Claim C8. When the maximum count is zero the height of a bar is the number 0, and no
  division is made. For a day whose count is at most the maximum count the height is a
  finite number between 0 and 100; this is so for every day and every histogram that is
  computed. The processing rate is the number 0 when no item has been processed, and no
  division is made.
\<close>

theorem degenerate_normalization:
  "(maxC = 0 \<longrightarrow> barHeight counts maxC d = Finite 0) \<and>
   (countAt counts d \<le> maxC \<longrightarrow>
      (\<exists>x. barHeight counts maxC d = Finite x \<and> 0 \<le> x \<and> x \<le> 100)) \<and>
   (timeHistogram nd dayOf maxArguments shots = Inr h \<longrightarrow>
      (\<exists>x. barHeight (dailyCounts h) (maxCount h) d = Finite x \<and> 0 \<le> x \<and> x \<le> 100)) \<and>
   (processed st = 0 \<longrightarrow> calculateProcessingRate startTime now st = Finite 0)"
proof (intro conjI impI)
  show "barHeight counts maxC d = Finite 0" if "maxC = 0"
    using that by (simp add: barHeight_def)
next
  assume "countAt counts d \<le> maxC"
  then show "\<exists>x. barHeight counts maxC d = Finite x \<and> 0 \<le> x \<and> x \<le> 100"
    by (rule barHeight_finite)
next
  assume e: "timeHistogram nd dayOf maxArguments shots = Inr h"
  have "countAt (dailyCounts h) d \<le> maxCount h"
  proof (cases "map_of (dailyCounts h) d")
    case None
    then show ?thesis by (simp add: countAt_def)
  next
    case (Some n)
    then have "(d, n) \<in> set (dailyCounts h)" by (rule map_of_SomeD)
    then have "n \<le> maxCount h" using timeHistogram_bound[OF e] by blast
    then show ?thesis using Some by (simp add: countAt_def)
  qed
  then show "\<exists>x. barHeight (dailyCounts h) (maxCount h) d = Finite x \<and> 0 \<le> x \<and> x \<le> 100"
    by (rule barHeight_finite)
next
  show "calculateProcessingRate startTime now st = Finite 0" if "processed st = 0"
    using that by (simp add: calculateProcessingRate_def split: option.splits)
qed

text \<open>
  The theorem at an empty table, at a table with a count above a maximum of zero, at two
  bars of tables with a positive maximum, and at a start time equal to the present time
  with nothing processed.
\<close>

theorem degenerate_normalization_witness:
  "barHeight [] 0 5 = Finite 0 \<and>
   barHeight [(5, 3)] 0 5 = Finite 0 \<and>
   barHeight [(1, 2), (2, 0), (3, 4)] 4 1 = Finite 50 \<and>
   barHeight [(19725, 2), (19723, 1), (19724, 0)] 2 19724 = Finite 0 \<and>
   calculateProcessingRate (Some (Some 1000)) 1000
     \<lparr>is_running = True, job_id = None, progress = 0, total = 10, processed = 0, failed = 0,
      current_file = None, status = ''running''\<rparr> = Finite 0"
proof -
  let ?st = "\<lparr>is_running = True, job_id = None, progress = 0, total = 10, processed = 0,
      failed = 0, current_file = None, status = ''running''\<rparr>"
  let ?c = "[(1 :: int, 2 :: nat), (2, 0), (3, 4)]"
  note dn = degenerate_normalization
  have a: "barHeight [] 0 5 = Finite 0"
    by (rule dn[of 0 "[]" 5, THEN conjunct1, rule_format]) simp
  have b: "barHeight [(5, 3)] 0 5 = Finite 0"
    by (rule dn[of 0 "[(5, 3)]" 5, THEN conjunct1, rule_format]) simp
  have le: "countAt ?c 1 \<le> 4" by (simp add: countAt_def)
  from dn[of 4 ?c 1, THEN conjunct2, THEN conjunct1, rule_format, OF le]
  obtain x where x: "barHeight ?c 4 1 = Finite x" "0 \<le> x" "x \<le> 100" by blast
  have c: "barHeight ?c 4 1 = Finite 50"
    by (simp add: barHeight_def jsDivide_def jsTimes_def)
  have d: "barHeight [(19725, 2), (19723, 1), (19724, 0)] 2 19724 = Finite 0"
    by (simp add: barHeight_def jsDivide_def jsTimes_def)
  have p: "processed ?st = 0" by simp
  have r: "calculateProcessingRate (Some (Some 1000)) 1000 ?st = Finite 0"
    by (rule dn[of 0 "[]" 5 _ _ _ _ _ ?st "Some (Some 1000)" 1000,
          THEN conjunct2, THEN conjunct2, THEN conjunct2, rule_format, OF p])
  show ?thesis using a b c d r by (intro conjI)
qed

end
